theory Spec2Isabelle
  imports Main "HOL-Library.Sublist"
begin

section \<open>Python strings and paths\<close>

text \<open>
  A Python \<open>str\<close> is modelled as a \<open>string\<close>: one list element per code point, for
  code points below 256.  \<open>len\<close> is \<open>length\<close>.
\<close>

definition startswith :: "string \<Rightarrow> string \<Rightarrow> bool" where
  "startswith s p = (take (length p) s = p)"

definition endswith :: "string \<Rightarrow> string \<Rightarrow> bool" where
  "endswith s p = (length p \<le> length s \<and> drop (length s - length p) s = p)"

text \<open>
  \<open>os.path.join(a, b)\<close> of \<open>posixpath\<close>: an absolute \<open>b\<close> replaces \<open>a\<close>; otherwise
  \<open>b\<close> is appended, after a separator unless \<open>a\<close> is empty or already ends with one.
\<close>

definition os_path_join :: "string \<Rightarrow> string \<Rightarrow> string" where
  "os_path_join a b =
     (if startswith b ''/'' then b
      else if a = [] \<or> endswith a ''/'' then a @ b
      else a @ ''/'' @ b)"

section \<open>SchemaDetector\<close>

text \<open>
  The result dictionary of \<open>find_schema_files\<close> has the three fixed keys
  \<open>valueset\<close>, \<open>logical_model\<close> and \<open>other\<close>, each holding a list of paths.
\<close>

record schemas =
  valueset :: "string list"
  logical_model :: "string list"
  other :: "string list"

definition empty_schemas :: schemas where
  "empty_schemas = \<lparr>valueset = [], logical_model = [], other = []\<rparr>"

text \<open>
  One iteration of the loop over \<open>all_files\<close>: the body of \<open>for file in all_files\<close>,
  with the branches in the order of the source.  Logging has no effect on the result and
  is left out.
\<close>

definition scan_file :: "string \<Rightarrow> string \<Rightarrow> schemas \<Rightarrow> schemas" where
  "scan_file schema_dir file s =
     (if \<not> endswith file ''.schema.json'' then s
      else let file_path = os_path_join schema_dir file in
        if startswith file ''ValueSet-'' then s\<lparr>valueset := valueset s @ [file_path]\<rparr>
        else if file \<in> set [''ValueSets.schema.json'', ''LogicalModels.schema.json''] then
          (if file = ''ValueSets.schema.json''
           then s\<lparr>valueset := valueset s @ [file_path]\<rparr>
           else s\<lparr>logical_model := logical_model s @ [file_path]\<rparr>)
        else if \<not> startswith file ''ValueSet-'' \<and> \<not> startswith file ''CodeSystem-''
          then s\<lparr>logical_model := logical_model s @ [file_path]\<rparr>
        else s\<lparr>other := other s @ [file_path]\<rparr>)"

fun scan_files :: "string \<Rightarrow> string list \<Rightarrow> schemas \<Rightarrow> schemas" where
  "scan_files schema_dir [] s = s"
| "scan_files schema_dir (file # files) s = scan_files schema_dir files (scan_file schema_dir file s)"

text \<open>
  \<open>find_schema_files(schema_dir)\<close>.  The directory is given by what \<open>os.listdir\<close>
  returns for it: \<open>None\<close> when \<open>os.path.exists(schema_dir)\<close> is false, the list of
  entry names in listing order otherwise.
\<close>

definition find_schema_files :: "string \<Rightarrow> string list option \<Rightarrow> schemas" where
  "find_schema_files schema_dir listing =
     (case listing of
        None \<Rightarrow> empty_schemas
      | Some all_files \<Rightarrow> scan_files schema_dir all_files empty_schemas)"

text \<open>The role a file name is given by the chain of tests, read off as predicates.\<close>

definition is_schema :: "string \<Rightarrow> bool" where
  "is_schema file = endswith file ''.schema.json''"

definition to_valueset :: "string \<Rightarrow> bool" where
  "to_valueset file =
     (is_schema file \<and> (startswith file ''ValueSet-'' \<or> file = ''ValueSets.schema.json''))"

definition to_other :: "string \<Rightarrow> bool" where
  "to_other file = (is_schema file \<and> startswith file ''CodeSystem-'')"

definition to_logical_model :: "string \<Rightarrow> bool" where
  "to_logical_model file = (is_schema file \<and> \<not> to_valueset file \<and> \<not> to_other file)"

section \<open>Properties of the classifier\<close>

lemma startswith_ValueSets: "\<not> startswith ''ValueSets.schema.json'' ''CodeSystem-''"
  by (simp add: startswith_def)

lemma startswith_excl: "startswith f ''ValueSet-'' \<Longrightarrow> \<not> startswith f ''CodeSystem-''"
  by (cases f) (auto simp: startswith_def)

lemma scan_file_valueset:
  "valueset (scan_file d f s) = valueset s @ (if to_valueset f then [os_path_join d f] else [])"
  by (auto simp: scan_file_def to_valueset_def is_schema_def Let_def)

lemma scan_file_other:
  "other (scan_file d f s) = other s @ (if to_other f then [os_path_join d f] else [])"
  using startswith_excl [of f]
  by (auto simp: scan_file_def to_other_def is_schema_def Let_def startswith_ValueSets
      startswith_def)

lemma scan_file_logical_model:
  "logical_model (scan_file d f s) =
     logical_model s @ (if to_logical_model f then [os_path_join d f] else [])"
  using startswith_excl [of f]
  by (auto simp: scan_file_def to_logical_model_def to_valueset_def to_other_def is_schema_def
      Let_def startswith_def)

lemma scan_files_valueset:
  "valueset (scan_files d fs s) = valueset s @ map (os_path_join d) (filter to_valueset fs)"
  by (induction fs arbitrary: s) (simp_all add: scan_file_valueset)

lemma scan_files_logical_model:
  "logical_model (scan_files d fs s) =
     logical_model s @ map (os_path_join d) (filter to_logical_model fs)"
  by (induction fs arbitrary: s) (simp_all add: scan_file_logical_model)

lemma scan_files_other:
  "other (scan_files d fs s) = other s @ map (os_path_join d) (filter to_other fs)"
  by (induction fs arbitrary: s) (simp_all add: scan_file_other)

lemma os_path_join_inj:
  assumes "CHR ''/'' \<notin> set f" and "CHR ''/'' \<notin> set g"
    and "os_path_join d f = os_path_join d g"
  shows "f = g"
proof -
  have "\<not> startswith f ''/''" "\<not> startswith g ''/''"
    using assms(1,2) by (cases f; cases g; auto simp: startswith_def)+
  with assms(3) show ?thesis
    by (auto simp: os_path_join_def split: if_splits)
qed

lemma count_list_map_filter:
  assumes "distinct xs" and "inj_on g (set xs)" and "x \<in> set xs"
  shows "count_list (map g (filter P xs)) (g x) = (if P x then 1 else 0)"
  using assms
proof (induction xs)
  case Nil
  then show ?case by simp
next
  case (Cons y ys)
  show ?case
  proof (cases "x = y")
    case True
    have "g y \<notin> g ` set ys"
      using Cons.prems(1,2) by (auto simp: inj_on_def)
    then have "count_list (map g (filter P ys)) (g y) = 0"
      by (auto simp: count_list_0_iff)
    with True show ?thesis by simp
  next
    case False
    then have "x \<in> set ys" using Cons.prems(3) by simp
    moreover have "g x \<noteq> g y"
      using False Cons.prems(2,3) by (auto simp: inj_on_def)
    ultimately show ?thesis
      using Cons.IH Cons.prems(1,2) by (auto simp: inj_on_def)
  qed
qed

lemma roles_partition:
  "is_schema f \<Longrightarrow>
     (if to_valueset f then 1 else 0) + (if to_logical_model f then 1 else 0)
       + (if to_other f then 1 else (0::nat)) = 1"
  using startswith_excl [of f]
  by (auto simp: to_logical_model_def to_valueset_def to_other_def startswith_ValueSets)

lemma roles_length:
  "length (filter to_valueset fs) + length (filter to_logical_model fs)
     + length (filter to_other fs) = length (filter is_schema fs)"
proof (induction fs)
  case Nil
  then show ?case by simp
next
  case (Cons f fs)
  show ?case
  proof (cases "is_schema f")
    case True
    from roles_partition [OF True] Cons.IH True show ?thesis
      by (auto split: if_splits)
  next
    case False
    with Cons.IH show ?thesis
      by (simp add: to_logical_model_def to_valueset_def to_other_def)
  qed
qed

lemma find_schema_files_valueset:
  "valueset (find_schema_files d (Some fs)) = map (os_path_join d) (filter to_valueset fs)"
  by (simp add: find_schema_files_def scan_files_valueset empty_schemas_def)

lemma find_schema_files_logical_model:
  "logical_model (find_schema_files d (Some fs))
     = map (os_path_join d) (filter to_logical_model fs)"
  by (simp add: find_schema_files_def scan_files_logical_model empty_schemas_def)

lemma find_schema_files_other:
  "other (find_schema_files d (Some fs)) = map (os_path_join d) (filter to_other fs)"
  by (simp add: find_schema_files_def scan_files_other empty_schemas_def)

section \<open>Claims about the classifier\<close>

text \<open>
  C1.  For a directory listing (distinct entry names without a path separator, as
  \<open>os.listdir\<close> returns them), the three buckets of \<open>find_schema_files\<close> together
  hold as many paths as the listing has names ending in \<open>.schema.json\<close>; the path of
  every such name occurs exactly once in the three buckets taken together; and every
  bucket lists its paths in the order of the listing: it is the listing, filtered by the
  bucket's role and mapped to paths.
\<close>

theorem find_schema_files_partition:
  assumes "distinct all_files" and "\<forall>f \<in> set all_files. CHR ''/'' \<notin> set f"
  shows "length (valueset (find_schema_files d (Some all_files)))
         + length (logical_model (find_schema_files d (Some all_files)))
         + length (other (find_schema_files d (Some all_files)))
         = length (filter (\<lambda>f. endswith f ''.schema.json'') all_files)
    \<and> (\<forall>f \<in> set all_files. endswith f ''.schema.json'' \<longrightarrow>
           count_list (valueset (find_schema_files d (Some all_files))) (os_path_join d f)
         + count_list (logical_model (find_schema_files d (Some all_files))) (os_path_join d f)
         + count_list (other (find_schema_files d (Some all_files))) (os_path_join d f) = 1)
    \<and> valueset (find_schema_files d (Some all_files))
         = map (os_path_join d) (filter to_valueset all_files)
    \<and> logical_model (find_schema_files d (Some all_files))
         = map (os_path_join d) (filter to_logical_model all_files)
    \<and> other (find_schema_files d (Some all_files))
         = map (os_path_join d) (filter to_other all_files)"
proof -
  let ?r = "find_schema_files d (Some all_files)"
  note vlo = find_schema_files_valueset find_schema_files_logical_model
    find_schema_files_other
  have "is_schema = (\<lambda>f. endswith f ''.schema.json'')"
    by (rule ext) (simp add: is_schema_def)
  then have len: "length (valueset ?r) + length (logical_model ?r) + length (other ?r)
      = length (filter (\<lambda>f. endswith f ''.schema.json'') all_files)"
    using roles_length [of all_files] by (simp add: vlo)
  have inj: "inj_on (os_path_join d) (set all_files)"
    using assms(2) by (auto simp: inj_on_def dest: os_path_join_inj)
  have once: "\<forall>f \<in> set all_files. endswith f ''.schema.json'' \<longrightarrow>
           count_list (valueset ?r) (os_path_join d f)
         + count_list (logical_model ?r) (os_path_join d f)
         + count_list (other ?r) (os_path_join d f) = 1"
  proof (intro ballI impI)
    fix f assume f: "f \<in> set all_files" and s: "endswith f ''.schema.json''"
    from s have "is_schema f" by (simp add: is_schema_def)
    from roles_partition [OF this] show
      "count_list (valueset ?r) (os_path_join d f)
         + count_list (logical_model ?r) (os_path_join d f)
         + count_list (other ?r) (os_path_join d f) = 1"
      by (simp only: vlo count_list_map_filter [OF assms(1) inj f])
  qed
  from len once show ?thesis by (simp only: vlo)
qed

theorem find_schema_files_partition_witness:
  "length (valueset (find_schema_files ''output/schemas''
       (Some [''ValueSet-a.schema.json'', ''Patient.schema.json'', ''readme.txt'',
              ''CodeSystem-c.schema.json''])))
   + length (logical_model (find_schema_files ''output/schemas''
       (Some [''ValueSet-a.schema.json'', ''Patient.schema.json'', ''readme.txt'',
              ''CodeSystem-c.schema.json''])))
   + length (other (find_schema_files ''output/schemas''
       (Some [''ValueSet-a.schema.json'', ''Patient.schema.json'', ''readme.txt'',
              ''CodeSystem-c.schema.json''])))
   = 3
   \<and> valueset (find_schema_files ''output/schemas''
       (Some [''ValueSet-a.schema.json'', ''Patient.schema.json'', ''readme.txt'',
              ''CodeSystem-c.schema.json'']))
     = [''output/schemas/ValueSet-a.schema.json'']
   \<and> count_list (logical_model (find_schema_files ''output/schemas''
       (Some [''ValueSet-a.schema.json'', ''Patient.schema.json'', ''readme.txt'',
              ''CodeSystem-c.schema.json''])))
       ''output/schemas/Patient.schema.json'' = 1"
proof -
  let ?fs = "[''ValueSet-a.schema.json'', ''Patient.schema.json'', ''readme.txt'',
              ''CodeSystem-c.schema.json'']"
  have d: "distinct ?fs" by simp
  have n: "\<forall>f \<in> set ?fs. CHR ''/'' \<notin> set f" by simp
  have e: "filter (\<lambda>f. endswith f ''.schema.json'') ?fs
      = [''ValueSet-a.schema.json'', ''Patient.schema.json'', ''CodeSystem-c.schema.json'']"
    by (simp add: endswith_def)
  have v: "filter to_valueset ?fs = [''ValueSet-a.schema.json'']"
    by (simp add: to_valueset_def is_schema_def endswith_def startswith_def)
  have l: "filter to_logical_model ?fs = [''Patient.schema.json'']"
    by (simp add: to_logical_model_def to_valueset_def to_other_def is_schema_def
        endswith_def startswith_def)
  have j: "os_path_join ''output/schemas'' ''ValueSet-a.schema.json''
      = ''output/schemas/ValueSet-a.schema.json''"
    "os_path_join ''output/schemas'' ''Patient.schema.json''
      = ''output/schemas/Patient.schema.json''"
    by (simp_all add: os_path_join_def endswith_def startswith_def)
  note t = find_schema_files_partition [OF d n, of "''output/schemas''", unfolded e v l]
  from t [THEN conjunct1]
  have "length (valueset (find_schema_files ''output/schemas'' (Some ?fs)))
         + length (logical_model (find_schema_files ''output/schemas'' (Some ?fs)))
         + length (other (find_schema_files ''output/schemas'' (Some ?fs))) = 3"
    by simp
  moreover from t [THEN conjunct2, THEN conjunct2, THEN conjunct1]
  have "valueset (find_schema_files ''output/schemas'' (Some ?fs))
      = [''output/schemas/ValueSet-a.schema.json'']"
    by (simp add: j)
  moreover from t [THEN conjunct2, THEN conjunct2, THEN conjunct2, THEN conjunct1]
  have "count_list (logical_model (find_schema_files ''output/schemas'' (Some ?fs)))
       ''output/schemas/Patient.schema.json'' = 1"
    by (simp add: j)
  ultimately show ?thesis by (simp only: simp_thms)
qed

text \<open>
  C7.  The claim as stated fails: the result has no catalog bucket, and the two catalog
  file names are appended to the lists \<open>valueset\<close> and \<open>logical_model\<close> themselves, the
  lists the per-item synthesis and the catalog generation iterate over.
\<close>

theorem catalog_names_counterexample:
  "valueset (find_schema_files ''output/schemas''
      (Some [''ValueSets.schema.json'', ''LogicalModels.schema.json'']))
     = [''output/schemas/ValueSets.schema.json'']
   \<and> logical_model (find_schema_files ''output/schemas''
      (Some [''ValueSets.schema.json'', ''LogicalModels.schema.json'']))
     = [''output/schemas/LogicalModels.schema.json'']"
  by (simp add: find_schema_files_def empty_schemas_def scan_file_def os_path_join_def
      endswith_def startswith_def)

text \<open>
  C7, amended.  A listing entry named \<open>ValueSets.schema.json\<close> is put in the list
  \<open>valueset\<close> and in neither of the other two lists; an entry named
  \<open>LogicalModels.schema.json\<close> is put in the list \<open>logical_model\<close> and in neither of
  the other two.
\<close>

theorem catalog_names_routing:
  assumes "\<forall>f \<in> set all_files. CHR ''/'' \<notin> set f"
  shows "(''ValueSets.schema.json'' \<in> set all_files \<longrightarrow>
            os_path_join d ''ValueSets.schema.json''
              \<in> set (valueset (find_schema_files d (Some all_files)))
          \<and> os_path_join d ''ValueSets.schema.json''
              \<notin> set (logical_model (find_schema_files d (Some all_files)))
          \<and> os_path_join d ''ValueSets.schema.json''
              \<notin> set (other (find_schema_files d (Some all_files))))
    \<and> (''LogicalModels.schema.json'' \<in> set all_files \<longrightarrow>
            os_path_join d ''LogicalModels.schema.json''
              \<in> set (logical_model (find_schema_files d (Some all_files)))
          \<and> os_path_join d ''LogicalModels.schema.json''
              \<notin> set (valueset (find_schema_files d (Some all_files)))
          \<and> os_path_join d ''LogicalModels.schema.json''
              \<notin> set (other (find_schema_files d (Some all_files))))"
proof -
  have V: "to_valueset ''ValueSets.schema.json''"
    "\<not> to_logical_model ''ValueSets.schema.json''" "\<not> to_other ''ValueSets.schema.json''"
    by (simp_all add: to_valueset_def to_logical_model_def to_other_def is_schema_def
        endswith_def startswith_def)
  have L: "to_logical_model ''LogicalModels.schema.json''"
    "\<not> to_valueset ''LogicalModels.schema.json''" "\<not> to_other ''LogicalModels.schema.json''"
    by (simp_all add: to_valueset_def to_logical_model_def to_other_def is_schema_def
        endswith_def startswith_def)
  have inj: "f \<in> set all_files \<Longrightarrow> g \<in> set all_files \<Longrightarrow>
      os_path_join d f = os_path_join d g \<Longrightarrow> f = g" for f g
    using assms by (auto dest: os_path_join_inj)
  show ?thesis
    unfolding find_schema_files_valueset find_schema_files_logical_model
      find_schema_files_other
    using V L by (auto dest: inj)
qed

theorem catalog_names_routing_witness:
  "os_path_join ''s'' ''ValueSets.schema.json''
      \<in> set (valueset (find_schema_files ''s''
           (Some [''LogicalModels.schema.json'', ''ValueSets.schema.json''])))
   \<and> os_path_join ''s'' ''LogicalModels.schema.json''
      \<notin> set (valueset (find_schema_files ''s''
           (Some [''LogicalModels.schema.json'', ''ValueSets.schema.json''])))"
proof -
  have n: "\<forall>f \<in> set [''LogicalModels.schema.json'', ''ValueSets.schema.json''].
      CHR ''/'' \<notin> set f" by simp
  from catalog_names_routing [OF n, of "''s''"] show ?thesis by simp
qed

text \<open>
  C10.  The bucket \<open>other\<close> holds exactly the paths of the listing's names that end in
  \<open>.schema.json\<close> and start with \<open>CodeSystem-\<close>, in listing order.
\<close>

theorem other_is_CodeSystem:
  "other (find_schema_files d (Some all_files))
     = map (os_path_join d)
         (filter (\<lambda>f. endswith f ''.schema.json'' \<and> startswith f ''CodeSystem-'') all_files)"
proof -
  have "to_other = (\<lambda>f. endswith f ''.schema.json'' \<and> startswith f ''CodeSystem-'')"
    by (rule ext) (simp add: to_other_def is_schema_def)
  then show ?thesis by (simp add: find_schema_files_other)
qed

section \<open>Python values\<close>

text \<open>
  The values \<open>json.load\<close> returns and the script builds: \<open>None\<close>, booleans, integers,
  strings, lists and dictionaries.  A dictionary is an association list in insertion
  order; its keys are values themselves (the keys of a parsed JSON object are strings,
  but the script also uses values read from a report as keys).  Floating-point numbers
  are not modelled.
\<close>

datatype py =
    PNone
  | PBool bool
  | PInt int
  | PStr string
  | PList "py list"
  | PDict "(py \<times> py) list"

type_synonym pydict = "(py \<times> py) list"

datatype error = AttributeError | TypeError | ValueError | KeyError | OSError | ReError

text \<open>Truth value of a value in a condition (\<open>if details:\<close>).\<close>

fun truthy :: "py \<Rightarrow> bool" where
  "truthy PNone = False"
| "truthy (PBool b) = b"
| "truthy (PInt i) = (i \<noteq> 0)"
| "truthy (PStr s) = (s \<noteq> [])"
| "truthy (PList xs) = (xs \<noteq> [])"
| "truthy (PDict d) = (d \<noteq> [])"

text \<open>
  Dictionary keys: lists and dictionaries are unhashable; \<open>True\<close> and \<open>1\<close>, and \<open>False\<close>
  and \<open>0\<close>, are equal keys.
\<close>

fun hashable :: "py \<Rightarrow> bool" where
  "hashable (PList xs) = False"
| "hashable (PDict d) = False"
| "hashable v = True"

fun key_norm :: "py \<Rightarrow> py" where
  "key_norm (PBool b) = PInt (if b then 1 else 0)"
| "key_norm v = v"

definition key_eq :: "py \<Rightarrow> py \<Rightarrow> bool" where
  "key_eq a b = (key_norm a = key_norm b)"

text \<open>\<open>d.get(k)\<close> as an option, \<open>d.get(k, default)\<close>, and \<open>d[k] = v\<close>.\<close>

fun dict_find :: "pydict \<Rightarrow> py \<Rightarrow> py option" where
  "dict_find [] k = None"
| "dict_find ((a, b) # d) k = (if key_eq a k then Some b else dict_find d k)"

definition dict_get :: "pydict \<Rightarrow> py \<Rightarrow> py \<Rightarrow> py" where
  "dict_get d k dflt = (case dict_find d k of None \<Rightarrow> dflt | Some v \<Rightarrow> v)"

fun dict_set :: "pydict \<Rightarrow> py \<Rightarrow> py \<Rightarrow> pydict" where
  "dict_set [] k v = [(k, v)]"
| "dict_set ((a, b) # d) k v = (if key_eq a k then (a, v) # d else (a, b) # dict_set d k v)"

text \<open>The elements a \<open>for\<close> loop visits; numbers, booleans and \<open>None\<close> are not iterable.\<close>

fun py_iter :: "py \<Rightarrow> error + py list" where
  "py_iter (PList xs) = Inr xs"
| "py_iter (PStr s) = Inr (map (\<lambda>c. PStr [c]) s)"
| "py_iter (PDict d) = Inr (map fst d)"
| "py_iter v = Inl TypeError"

text \<open>
  \<open>dict(v)\<close>: a copy of a dictionary; from a list, one entry per element, each element
  an iterable of exactly two items (a two-element list, a two-character string or a
  dictionary with two keys) whose first item is hashable; an error otherwise.
\<close>

fun pair_of :: "py \<Rightarrow> error + (py \<times> py)" where
  "pair_of (PList [k, v]) = (if hashable k then Inr (k, v) else Inl TypeError)"
| "pair_of (PList xs) = Inl ValueError"
| "pair_of (PStr [a, b]) = Inr (PStr [a], PStr [b])"
| "pair_of (PStr s) = Inl ValueError"
| "pair_of (PDict [(a, x), (b, y)]) = Inr (a, b)"
| "pair_of (PDict d) = Inl ValueError"
| "pair_of v = Inl TypeError"

fun dict_of_pairs :: "py list \<Rightarrow> pydict \<Rightarrow> error + pydict" where
  "dict_of_pairs [] acc = Inr acc"
| "dict_of_pairs (x # xs) acc =
     (case pair_of x of Inl e \<Rightarrow> Inl e | Inr (k, v) \<Rightarrow> dict_of_pairs xs (dict_set acc k v))"

fun py_dict :: "py \<Rightarrow> error + pydict" where
  "py_dict (PDict d) = Inr d"
| "py_dict (PList xs) = dict_of_pairs xs []"
| "py_dict (PStr s) = (if s = [] then Inr [] else Inl ValueError)"
| "py_dict v = Inl TypeError"

text \<open>\<open>str(n)\<close> for a natural number: its decimal digits.\<close>

fun str_nat :: "nat \<Rightarrow> string" where
  "str_nat n =
     (if n < 10 then [char_of (48 + n)] else str_nat (n div 10) @ [char_of (48 + n mod 10)])"

text \<open>
  Formatting a value inside an f-string: a string stands for itself; for the other
  values the text is Python's \<open>repr\<close>, taken as a parameter.
\<close>

definition fmt :: "(py \<Rightarrow> string) \<Rightarrow> py \<Rightarrow> string" where
  "fmt repr v = (case v of PStr s \<Rightarrow> s | _ \<Rightarrow> repr v)"

text \<open>
  A loop whose body may raise: the state reached when the exception is raised is kept,
  as the mutations of a Python object are.
\<close>

fun for_each :: "('a \<Rightarrow> 's \<Rightarrow> error option \<times> 's) \<Rightarrow> 'a list \<Rightarrow> 's \<Rightarrow> error option \<times> 's" where
  "for_each body [] s = (None, s)"
| "for_each body (x # xs) s =
     (case body x s of
        (None, s') \<Rightarrow> for_each body xs s'
      | (Some e, s') \<Rightarrow> (Some e, s'))"

text \<open>Sequencing of two such steps: the second runs when the first raised nothing.\<close>

definition then_do :: "error option \<times> 's \<Rightarrow> ('s \<Rightarrow> error option \<times> 's) \<Rightarrow> error option \<times> 's" where
  "then_do r f = (case r of (None, s) \<Rightarrow> f s | (Some e, s) \<Rightarrow> (Some e, s))"

section \<open>QAReporter\<close>

text \<open>
  The object's fields.  \<open>self.report\<close> is a dictionary with fixed keys; its entries are
  fields here and \<open>report\<close> below rebuilds the dictionary.  \<open>datetime.now().isoformat()\<close>
  reads a clock: the model takes the clock as a function from the number of readings
  made so far, counted in \<open>ticks\<close>.
\<close>

record qa_reporter =
  phase :: string
  timestamp :: string
  status :: string
  summary :: pydict
  successes :: "py list"
  warnings :: "py list"
  errors :: "py list"
  files_processed :: "py list"
  files_expected :: "py list"
  files_missing :: "py list"
  ig_publisher_qa :: py
  stored_preprocessing_reports :: "py list"
  ticks :: nat

definition report :: "qa_reporter \<Rightarrow> py" where
  "report st = PDict
     [(PStr ''phase'', PStr (phase st)),
      (PStr ''timestamp'', PStr (timestamp st)),
      (PStr ''status'', PStr (status st)),
      (PStr ''summary'', PDict (summary st)),
      (PStr ''details'', PDict
         [(PStr ''successes'', PList (successes st)),
          (PStr ''warnings'', PList (warnings st)),
          (PStr ''errors'', PList (errors st)),
          (PStr ''files_processed'', PList (files_processed st)),
          (PStr ''files_expected'', PList (files_expected st)),
          (PStr ''files_missing'', PList (files_missing st))])]"

definition now :: "(nat \<Rightarrow> string) \<Rightarrow> qa_reporter \<Rightarrow> string \<times> qa_reporter" where
  "now clock st = (clock (ticks st), st\<lparr>ticks := Suc (ticks st)\<rparr>)"

definition init :: "(nat \<Rightarrow> string) \<Rightarrow> nat \<Rightarrow> string \<Rightarrow> qa_reporter" where
  "init clock t ph =
     \<lparr>phase = ph, timestamp = clock t, status = ''running'', summary = [],
      successes = [], warnings = [], errors = [], files_processed = [],
      files_expected = [], files_missing = [], ig_publisher_qa = PNone,
      stored_preprocessing_reports = [], ticks = Suc t\<rparr>"

text \<open>
  \<open>load_existing_ig_qa\<close>: the file is absent, or opening or parsing it raises, or it
  parses to a value.
\<close>

datatype 'a read = Missing | Failed | Loaded 'a

definition load_existing_ig_qa :: "py read \<Rightarrow> qa_reporter \<Rightarrow> bool \<times> qa_reporter" where
  "load_existing_ig_qa f st =
     (case f of
        Loaded v \<Rightarrow> (True, st\<lparr>ig_publisher_qa := v\<rparr>)
      | Missing \<Rightarrow> (False, st)
      | Failed \<Rightarrow> (False, st))"

definition entry :: "string \<Rightarrow> string \<Rightarrow> py \<Rightarrow> py" where
  "entry message t details =
     PDict ([(PStr ''message'', PStr message), (PStr ''timestamp'', PStr t)]
            @ (if truthy details then [(PStr ''details'', details)] else []))"

definition add_success :: "(nat \<Rightarrow> string) \<Rightarrow> string \<Rightarrow> py \<Rightarrow> qa_reporter \<Rightarrow> qa_reporter" where
  "add_success clock message details st =
     (let (t, st1) = now clock st
      in st1\<lparr>successes := successes st1 @ [entry message t details]\<rparr>)"

definition add_warning :: "(nat \<Rightarrow> string) \<Rightarrow> string \<Rightarrow> py \<Rightarrow> qa_reporter \<Rightarrow> qa_reporter" where
  "add_warning clock message details st =
     (let (t, st1) = now clock st
      in st1\<lparr>warnings := warnings st1 @ [entry message t details]\<rparr>)"

definition add_error :: "(nat \<Rightarrow> string) \<Rightarrow> string \<Rightarrow> py \<Rightarrow> qa_reporter \<Rightarrow> qa_reporter" where
  "add_error clock message details st =
     (let (t, st1) = now clock st
      in st1\<lparr>errors := errors st1 @ [entry message t details]\<rparr>)"

definition add_file_processed ::
  "(nat \<Rightarrow> string) \<Rightarrow> string \<Rightarrow> py \<Rightarrow> py \<Rightarrow> qa_reporter \<Rightarrow> qa_reporter" where
  "add_file_processed clock file_path stat details st =
     (let (t, st1) = now clock st
      in st1\<lparr>files_processed := files_processed st1 @
           [PDict ([(PStr ''file'', PStr file_path), (PStr ''status'', stat),
                    (PStr ''timestamp'', PStr t)]
                   @ (if truthy details then [(PStr ''details'', details)] else []))]\<rparr>)"

definition add_file_expected :: "string \<Rightarrow> bool \<Rightarrow> qa_reporter \<Rightarrow> qa_reporter" where
  "add_file_expected file_path found st =
     (let st1 = st\<lparr>files_expected := files_expected st @ [PStr file_path]\<rparr>
      in if \<not> found then st1\<lparr>files_missing := files_missing st1 @ [PStr file_path]\<rparr> else st1)"

text \<open>
  \<open>merge_preprocessing_report\<close>.  The report is stored first; the four loops then copy
  its entries.  \<open>.get\<close> on a value that is not a dictionary raises, and so does a loop
  over a value that is not iterable; the exception leaves the method with the report
  stored and the entries copied so far.
\<close>

definition folded ::
  "(py \<Rightarrow> string) \<Rightarrow> py \<Rightarrow> string \<Rightarrow> (string \<Rightarrow> pydict \<Rightarrow> qa_reporter \<Rightarrow> qa_reporter)
   \<Rightarrow> py \<Rightarrow> qa_reporter \<Rightarrow> error option \<times> qa_reporter" where
  "folded repr component_name key add item st =
     (case item of
        PDict e \<Rightarrow>
          (None, add (''['' @ fmt repr component_name @ ''] ''
                       @ fmt repr (dict_get e (PStr key) (PStr ''''))) e st)
      | _ \<Rightarrow> (Some AttributeError, st))"

definition fold_entries ::
  "(py \<Rightarrow> string) \<Rightarrow> py \<Rightarrow> pydict \<Rightarrow> string \<Rightarrow> string
   \<Rightarrow> (string \<Rightarrow> pydict \<Rightarrow> qa_reporter \<Rightarrow> qa_reporter)
   \<Rightarrow> qa_reporter \<Rightarrow> error option \<times> qa_reporter" where
  "fold_entries repr component_name details list_key key add st =
     (case py_iter (dict_get details (PStr list_key) (PList [])) of
        Inl e \<Rightarrow> (Some e, st)
      | Inr items \<Rightarrow> for_each (folded repr component_name key add) items st)"

definition merge_preprocessing_report ::
  "(nat \<Rightarrow> string) \<Rightarrow> (py \<Rightarrow> string) \<Rightarrow> py \<Rightarrow> qa_reporter \<Rightarrow> error option \<times> qa_reporter" where
  "merge_preprocessing_report clock repr preprocessing_report st =
     (let st0 = st\<lparr>stored_preprocessing_reports :=
                     stored_preprocessing_reports st @ [preprocessing_report]\<rparr>
      in case preprocessing_report of
        PDict rep \<Rightarrow>
          (let component_name =
                 dict_get rep (PStr ''component'') (dict_get rep (PStr ''phase'') (PStr ''Unknown''))
           in case dict_get rep (PStr ''details'') (PDict []) of
             PDict details \<Rightarrow>
               then_do (then_do (then_do
                 (fold_entries repr component_name details ''successes'' ''message''
                    (\<lambda>m e. add_success clock m (dict_get e (PStr ''details'') PNone)) st0)
                 (fold_entries repr component_name details ''warnings'' ''message''
                    (\<lambda>m e. add_warning clock m (dict_get e (PStr ''details'') PNone))))
                 (fold_entries repr component_name details ''errors'' ''message''
                    (\<lambda>m e. add_error clock m (dict_get e (PStr ''details'') PNone))))
                 (fold_entries repr component_name details ''files_processed'' ''file''
                    (\<lambda>m e. add_file_processed clock m
                              (dict_get e (PStr ''status'') (PStr ''unknown''))
                              (dict_get e (PStr ''details'') PNone)))
           | _ \<Rightarrow> (Some AttributeError, st0))
      | _ \<Rightarrow> (Some AttributeError, st0))"


text \<open>
  The loop of \<open>merge_with_ig_publisher_qa\<close> over \<open>enumerate\<close> of the stored reports:
  each report is stored under its name, by plain assignment.
\<close>

definition report_name :: "nat \<Rightarrow> py \<Rightarrow> error + py" where
  "report_name i r =
     (case r of
        PDict rep \<Rightarrow>
          (let name = dict_get rep (PStr ''component'')
                        (dict_get rep (PStr ''phase'') (PStr (''component_'' @ str_nat i)))
           in if hashable name then Inr name else Inl TypeError)
      | _ \<Rightarrow> Inl AttributeError)"

fun preprocessing_reports :: "nat \<Rightarrow> py list \<Rightarrow> pydict \<Rightarrow> error + pydict" where
  "preprocessing_reports i [] acc = Inr acc"
| "preprocessing_reports i (r # rs) acc =
     (case report_name i r of
        Inl e \<Rightarrow> Inl e
      | Inr name \<Rightarrow> preprocessing_reports (Suc i) rs (dict_set acc name r))"

text \<open>
  \<open>self.report["summary"][k]\<close> raises \<open>KeyError\<close> when the summary has no such key; any
  exception makes \<open>merge_with_ig_publisher_qa\<close> return \<open>self.report\<close>.
\<close>

definition dak_api_processing :: "qa_reporter \<Rightarrow> pydict \<Rightarrow> error + py" where
  "dak_api_processing st reports =
     (case (dict_find (summary st) (PStr ''total_successes''),
            dict_find (summary st) (PStr ''total_warnings''),
            dict_find (summary st) (PStr ''total_errors''),
            dict_find (summary st) (PStr ''completion_timestamp'')) of
        (Some s, Some w, Some e, Some t) \<Rightarrow>
          Inr (PDict
            [(PStr ''preprocessing_reports'', PDict reports),
             (PStr ''postprocessing'', report st),
             (PStr ''summary'', PDict
                [(PStr ''total_dak_api_successes'', s),
                 (PStr ''total_dak_api_warnings'', w),
                 (PStr ''total_dak_api_errors'', e),
                 (PStr ''dak_api_completion_timestamp'', t)])])
      | _ \<Rightarrow> Inl KeyError)"

definition merge_with_ig_publisher_qa :: "qa_reporter \<Rightarrow> py" where
  "merge_with_ig_publisher_qa st =
     (case py_dict (ig_publisher_qa st) of
        Inl e \<Rightarrow> report st
      | Inr merged \<Rightarrow>
          (case preprocessing_reports 0 (stored_preprocessing_reports st) [] of
             Inl e \<Rightarrow> report st
           | Inr reports \<Rightarrow>
               (case dak_api_processing st reports of
                  Inl e \<Rightarrow> report st
                | Inr v \<Rightarrow> PDict (dict_set merged (PStr ''dak_api_processing'') v))))"

definition finalize_report :: "(nat \<Rightarrow> string) \<Rightarrow> string \<Rightarrow> qa_reporter \<Rightarrow> py \<times> qa_reporter" where
  "finalize_report clock stat st =
     (let (t, st1) = now clock (st\<lparr>status := stat\<rparr>);
          st2 = st1\<lparr>summary :=
            [(PStr ''total_successes'', PInt (int (length (successes st1)))),
             (PStr ''total_warnings'', PInt (int (length (warnings st1)))),
             (PStr ''total_errors'', PInt (int (length (errors st1)))),
             (PStr ''files_processed_count'', PInt (int (length (files_processed st1)))),
             (PStr ''files_expected_count'', PInt (int (length (files_expected st1)))),
             (PStr ''files_missing_count'', PInt (int (length (files_missing st1)))),
             (PStr ''completion_timestamp'', PStr t)]\<rparr>
      in if truthy (ig_publisher_qa st2) then (merge_with_ig_publisher_qa st2, st2)
         else (report st2, st2))"

text \<open>Reading a result: a key of a dictionary, its keys in order, a path of keys.\<close>

definition py_find :: "py \<Rightarrow> py \<Rightarrow> py option" where
  "py_find v k = (case v of PDict d \<Rightarrow> dict_find d k | _ \<Rightarrow> None)"

definition py_keys :: "py \<Rightarrow> py list" where
  "py_keys v = (case v of PDict d \<Rightarrow> map fst d | _ \<Rightarrow> [])"

fun py_path :: "py \<Rightarrow> py list \<Rightarrow> py option" where
  "py_path v [] = Some v"
| "py_path v (k # ks) = (case py_find v k of None \<Rightarrow> None | Some w \<Rightarrow> py_path w ks)"

text \<open>
  The report that the loop over the stored reports leaves under a key: the last one
  whose name is that key.
\<close>

fun last_report :: "nat \<Rightarrow> py list \<Rightarrow> py \<Rightarrow> py option" where
  "last_report i [] k = None"
| "last_report i (r # rs) k =
     (case last_report (Suc i) rs k of
        Some x \<Rightarrow> Some x
      | None \<Rightarrow> (case report_name i r of
                   Inr n \<Rightarrow> if key_eq n k then Some r else None
                 | Inl e \<Rightarrow> None))"

text \<open>A sequence of calls of \<open>merge_preprocessing_report\<close>, the caller catching what a call raises.\<close>

fun merge_reports :: "(nat \<Rightarrow> string) \<Rightarrow> (py \<Rightarrow> string) \<Rightarrow> py list \<Rightarrow> qa_reporter \<Rightarrow> qa_reporter" where
  "merge_reports clock repr [] st = st"
| "merge_reports clock repr (r # rs) st =
     merge_reports clock repr rs (snd (merge_preprocessing_report clock repr r st))"

definition kept :: "qa_reporter \<Rightarrow> py \<times> py list" where
  "kept st = (ig_publisher_qa st, stored_preprocessing_reports st)"

section \<open>Properties of the QA reporter\<close>

lemma key_eq_refl [simp]: "key_eq a a"
  by (simp add: key_eq_def)

lemma key_eq_sym: "key_eq a b \<Longrightarrow> key_eq b a"
  by (simp add: key_eq_def)

lemma key_eq_trans: "key_eq a b \<Longrightarrow> key_eq b c \<Longrightarrow> key_eq a c"
  by (simp add: key_eq_def)

lemma key_eq_cong: "key_eq a b \<Longrightarrow> key_eq a c = key_eq b c"
  by (auto simp: key_eq_def)

lemma dict_find_set:
  "dict_find (dict_set d k v) k' = (if key_eq k k' then Some v else dict_find d k')"
  by (induction d) (auto simp: key_eq_def)

lemma keys_dict_set:
  "map fst (dict_set d k v)
     = (if dict_find d k = None then map fst d @ [k] else map fst d)"
  by (induction d) (auto split: if_splits)

lemma preprocessing_reports_find:
  assumes "\<forall>j < length rs. \<exists>m. report_name (i + j) (rs ! j) = Inr m"
  shows "\<exists>acc'. preprocessing_reports i rs acc = Inr acc'
           \<and> (\<forall>k. dict_find acc' k
                  = (case last_report i rs k of Some x \<Rightarrow> Some x | None \<Rightarrow> dict_find acc k))"
  using assms
proof (induction rs arbitrary: i acc)
  case Nil
  then show ?case by simp
next
  case (Cons r rs)
  from Cons.prems [rule_format, of 0] obtain m where m: "report_name i r = Inr m" by auto
  have "\<forall>j < length rs. \<exists>m. report_name (Suc i + j) (rs ! j) = Inr m"
  proof (intro allI impI)
    fix j assume "j < length rs"
    with Cons.prems [rule_format, of "Suc j"] show "\<exists>m. report_name (Suc i + j) (rs ! j) = Inr m"
      by simp
  qed
  from Cons.IH [OF this, of "dict_set acc m r"] obtain acc' where
    a: "preprocessing_reports (Suc i) rs (dict_set acc m r) = Inr acc'"
    and f: "\<forall>k. dict_find acc' k
        = (case last_report (Suc i) rs k of Some x \<Rightarrow> Some x
           | None \<Rightarrow> dict_find (dict_set acc m r) k)"
    by blast
  show ?case
    using a f m by (auto simp: dict_find_set split: option.splits)
qed

lemma for_each_kept:
  assumes "\<And>x s. kept (snd (body x s)) = kept s"
  shows "kept (snd (for_each body xs s)) = kept s"
proof (induction xs arbitrary: s)
  case Nil
  then show ?case by simp
next
  case (Cons x xs)
  show ?case
  proof (cases "body x s")
    case (Pair e s')
    with assms [of x s] have k: "kept s' = kept s" by simp
    show ?thesis
    proof (cases e)
      case None
      with Pair Cons.IH [of s'] k show ?thesis by simp
    next
      case (Some a)
      with Pair k show ?thesis by simp
    qed
  qed
qed

lemma add_kept:
  "kept (add_success clock m d st) = kept st"
  "kept (add_warning clock m d st) = kept st"
  "kept (add_error clock m d st) = kept st"
  "kept (add_file_processed clock m s d st) = kept st"
  by (simp_all add: kept_def add_success_def add_warning_def add_error_def
      add_file_processed_def now_def)

lemma fold_entries_kept:
  assumes "\<And>m e s. kept (add m e s) = kept s"
  shows "kept (snd (fold_entries repr cn details lk key add st)) = kept st"
proof -
  have "kept (snd (folded repr cn key add x s)) = kept s" for x s
    by (cases x) (simp_all add: folded_def assms)
  then show ?thesis
    by (simp add: fold_entries_def for_each_kept split: sum.splits)
qed

lemma then_do_kept:
  assumes "kept (snd r) = k" and "\<And>s. kept (snd (f s)) = kept s"
  shows "kept (snd (then_do r f)) = k"
  using assms by (cases r) (auto simp: then_do_def split: option.splits)

lemma merge_preprocessing_report_kept:
  "kept (snd (merge_preprocessing_report clock repr r st))
     = (ig_publisher_qa st, stored_preprocessing_reports st @ [r])"
proof -
  let ?st0 = "st\<lparr>stored_preprocessing_reports := stored_preprocessing_reports st @ [r]\<rparr>"
  have k0: "kept ?st0 = (ig_publisher_qa st, stored_preprocessing_reports st @ [r])"
    by (simp add: kept_def)
  show ?thesis
  proof (cases r)
    case (PDict rep)
    show ?thesis
    proof (cases "dict_get rep (PStr ''details'') (PDict [])")
      case (PDict details)
      have "kept (snd (fold_entries repr cn details lk key
              (\<lambda>m e. add_success clock m (dict_get e (PStr ''details'') PNone)) ?st0))
            = (ig_publisher_qa st, stored_preprocessing_reports st @ [r])" for cn lk key
        by (simp add: fold_entries_kept add_kept k0)
      then show ?thesis
        unfolding merge_preprocessing_report_def Let_def \<open>r = PDict rep\<close> py.case PDict
        by (intro then_do_kept) (simp_all add: fold_entries_kept add_kept)
    qed (simp_all add: merge_preprocessing_report_def Let_def \<open>r = PDict rep\<close> kept_def)
  qed (simp_all add: merge_preprocessing_report_def Let_def kept_def)
qed

lemma merge_reports_kept:
  "kept (merge_reports clock repr rs st)
     = (ig_publisher_qa st, stored_preprocessing_reports st @ rs)"
proof (induction rs arbitrary: st)
  case Nil
  then show ?case by (simp add: kept_def)
next
  case (Cons r rs)
  have "kept (snd (merge_preprocessing_report clock repr r st))
      = (ig_publisher_qa st, stored_preprocessing_reports st @ [r])"
    by (rule merge_preprocessing_report_kept)
  then have "ig_publisher_qa (snd (merge_preprocessing_report clock repr r st)) = ig_publisher_qa st"
    "stored_preprocessing_reports (snd (merge_preprocessing_report clock repr r st))
      = stored_preprocessing_reports st @ [r]"
    by (simp_all add: kept_def)
  with Cons.IH [of "snd (merge_preprocessing_report clock repr r st)"] show ?case
    by simp
qed

lemma finalize_report_merged:
  assumes "ig_publisher_qa st = PDict ext" and "ext \<noteq> []"
    and "preprocessing_reports 0 (stored_preprocessing_reports st) [] = Inr prs"
  shows "fst (finalize_report clock stat st) =
     PDict (dict_set ext (PStr ''dak_api_processing'')
       (PDict
          [(PStr ''preprocessing_reports'', PDict prs),
           (PStr ''postprocessing'', report (snd (finalize_report clock stat st))),
           (PStr ''summary'', PDict
              [(PStr ''total_dak_api_successes'', PInt (int (length (successes st)))),
               (PStr ''total_dak_api_warnings'', PInt (int (length (warnings st)))),
               (PStr ''total_dak_api_errors'', PInt (int (length (errors st)))),
               (PStr ''dak_api_completion_timestamp'', PStr (clock (ticks st)))])]))"
  using assms
  by (simp add: finalize_report_def now_def Let_def merge_with_ig_publisher_qa_def
      dak_api_processing_def key_eq_def)

lemma last_report_None:
  assumes "\<forall>l < length rs. \<forall>m. report_name (i + l) (rs ! l) = Inr m \<longrightarrow> \<not> key_eq m k"
  shows "last_report i rs k = None"
  using assms
proof (induction rs arbitrary: i)
  case Nil
  then show ?case by simp
next
  case (Cons r rs)
  have "\<forall>l < length rs. \<forall>m. report_name (Suc i + l) (rs ! l) = Inr m \<longrightarrow> \<not> key_eq m k"
  proof (intro allI impI)
    fix l m assume "l < length rs" "report_name (Suc i + l) (rs ! l) = Inr m"
    with Cons.prems [rule_format, of "Suc l" m] show "\<not> key_eq m k" by simp
  qed
  from Cons.IH [OF this] Cons.prems [rule_format, of 0] show ?case
    by (auto split: sum.splits)
qed

lemma last_report_last:
  assumes "j < length rs" and "report_name (i + j) (rs ! j) = Inr n"
    and "\<forall>l < length rs. j < l \<longrightarrow> (\<forall>m. report_name (i + l) (rs ! l) = Inr m \<longrightarrow> \<not> key_eq m n)"
  shows "last_report i rs n = Some (rs ! j)"
  using assms
proof (induction rs arbitrary: i j)
  case Nil
  then show ?case by simp
next
  case (Cons r rs)
  show ?case
  proof (cases j)
    case 0
    have "\<forall>l < length rs. \<forall>m. report_name (Suc i + l) (rs ! l) = Inr m \<longrightarrow> \<not> key_eq m n"
    proof (intro allI impI)
      fix l m assume "l < length rs" "report_name (Suc i + l) (rs ! l) = Inr m"
      with Cons.prems(3) [rule_format, of "Suc l" m] 0 show "\<not> key_eq m n" by simp
    qed
    from last_report_None [OF this] Cons.prems(2) 0 show ?thesis by simp
  next
    case (Suc j')
    have "\<forall>l < length rs. j' < l \<longrightarrow>
        (\<forall>m. report_name (Suc i + l) (rs ! l) = Inr m \<longrightarrow> \<not> key_eq m n)"
    proof (intro allI impI)
      fix l m assume "l < length rs" "j' < l" "report_name (Suc i + l) (rs ! l) = Inr m"
      with Cons.prems(3) [rule_format, of "Suc l" m] Suc show "\<not> key_eq m n" by simp
    qed
    from Cons.IH [of j' "Suc i", OF _ _ this] Cons.prems(1,2) Suc show ?thesis by simp
  qed
qed

lemma finalize_report_reports:
  assumes "ig_publisher_qa st = PDict ext" and "ext \<noteq> []"
    and "\<forall>j < length (stored_preprocessing_reports st).
           \<exists>m. report_name j (stored_preprocessing_reports st ! j) = Inr m"
  shows "py_path (fst (finalize_report clock stat st))
           [PStr ''dak_api_processing'', PStr ''preprocessing_reports'', k]
         = last_report 0 (stored_preprocessing_reports st) k"
proof -
  from preprocessing_reports_find [of "stored_preprocessing_reports st" 0 "[]"] assms(3)
  obtain prs where p: "preprocessing_reports 0 (stored_preprocessing_reports st) [] = Inr prs"
    and f: "\<forall>k. dict_find prs k
        = (case last_report 0 (stored_preprocessing_reports st) k of
             Some x \<Rightarrow> Some x | None \<Rightarrow> dict_find [] k)"
    by auto
  from f have "dict_find prs k = last_report 0 (stored_preprocessing_reports st) k"
    by (simp split: option.splits)
  then show ?thesis
    unfolding finalize_report_merged [OF assms(1,2) p]
    by (simp add: py_find_def dict_find_set key_eq_def split: option.splits)
qed

section \<open>Claims about the QA reporter\<close>

text \<open>
  C8.  The claim as stated fails for an external report that already has the key
  \<open>dak_api_processing\<close> (the script writes its merged report to the \<open>qa.json\<close> it
  loads, so a second run finds one): the key's external value is replaced, and no key
  is added.
\<close>

theorem finalize_report_counterexample:
  "py_find (fst (finalize_report (\<lambda>n. ''t'') ''completed''
       (snd (load_existing_ig_qa
          (Loaded (PDict [(PStr ''ok'', PBool True), (PStr ''dak_api_processing'', PStr ''old'')]))
          (init (\<lambda>n. ''t'') 0 ''postprocessing'')))))
     (PStr ''dak_api_processing'') \<noteq> Some (PStr ''old'')
   \<and> py_keys (fst (finalize_report (\<lambda>n. ''t'') ''completed''
       (snd (load_existing_ig_qa
          (Loaded (PDict [(PStr ''ok'', PBool True), (PStr ''dak_api_processing'', PStr ''old'')]))
          (init (\<lambda>n. ''t'') 0 ''postprocessing'')))))
     = [PStr ''ok'', PStr ''dak_api_processing'']"
proof -
  let ?ext = "[(PStr ''ok'', PBool True), (PStr ''dak_api_processing'', PStr ''old'')]"
  let ?st = "snd (load_existing_ig_qa (Loaded (PDict ?ext))
          (init (\<lambda>n. ''t'') 0 ''postprocessing''))"
  have i: "ig_publisher_qa ?st = PDict ?ext"
    and s: "preprocessing_reports 0 (stored_preprocessing_reports ?st) [] = Inr []"
    by (simp_all add: load_existing_ig_qa_def init_def)
  have n: "?ext \<noteq> []" by simp
  show ?thesis
    unfolding finalize_report_merged [OF i n s]
    by (simp add: py_find_def py_keys_def key_eq_def)
qed

text \<open>
  C8, amended.  When the external report is a non-empty dictionary and every stored
  component report is a dictionary with a hashable name, \<open>finalize_report\<close> returns a
  dictionary in which every key other than \<open>dak_api_processing\<close> has its external
  value; the key \<open>dak_api_processing\<close> is appended if the external report lacks it
  and keeps its place otherwise, and no other key is added; under it,
  \<open>preprocessing_reports\<close> maps a name to the last stored report of that name,
  \<open>postprocessing\<close> is this run's finalized report, and the summary's
  \<open>total_dak_api_warnings\<close> is the number of warnings recorded.
\<close>

theorem finalize_report_preserves_external:
  assumes "ig_publisher_qa st = PDict ext" and "ext \<noteq> []"
    and "\<forall>j < length (stored_preprocessing_reports st).
           \<exists>m. report_name j (stored_preprocessing_reports st ! j) = Inr m"
  shows "(\<forall>k. \<not> key_eq (PStr ''dak_api_processing'') k \<longrightarrow>
            py_find (fst (finalize_report clock stat st)) k = dict_find ext k)
    \<and> py_keys (fst (finalize_report clock stat st))
        = (if dict_find ext (PStr ''dak_api_processing'') = None
           then map fst ext @ [PStr ''dak_api_processing''] else map fst ext)
    \<and> (\<forall>k. py_path (fst (finalize_report clock stat st))
             [PStr ''dak_api_processing'', PStr ''preprocessing_reports'', k]
           = last_report 0 (stored_preprocessing_reports st) k)
    \<and> py_path (fst (finalize_report clock stat st))
          [PStr ''dak_api_processing'', PStr ''postprocessing'']
        = Some (report (snd (finalize_report clock stat st)))
    \<and> py_path (fst (finalize_report clock stat st))
          [PStr ''dak_api_processing'', PStr ''summary'', PStr ''total_dak_api_warnings'']
        = Some (PInt (int (length (warnings st))))"
proof -
  from preprocessing_reports_find [of "stored_preprocessing_reports st" 0 "[]"] assms(3)
  obtain prs where p: "preprocessing_reports 0 (stored_preprocessing_reports st) [] = Inr prs"
    by auto
  note m = finalize_report_merged [OF assms(1,2) p, of clock stat]
  have a: "\<forall>k. \<not> key_eq (PStr ''dak_api_processing'') k \<longrightarrow>
            py_find (fst (finalize_report clock stat st)) k = dict_find ext k"
    unfolding m by (simp add: py_find_def dict_find_set)
  have b: "py_keys (fst (finalize_report clock stat st))
        = (if dict_find ext (PStr ''dak_api_processing'') = None
           then map fst ext @ [PStr ''dak_api_processing''] else map fst ext)"
    unfolding m by (simp add: py_keys_def keys_dict_set)
  have c: "\<forall>k. py_path (fst (finalize_report clock stat st))
             [PStr ''dak_api_processing'', PStr ''preprocessing_reports'', k]
           = last_report 0 (stored_preprocessing_reports st) k"
    using finalize_report_reports [OF assms] by blast
  have d: "py_path (fst (finalize_report clock stat st))
          [PStr ''dak_api_processing'', PStr ''postprocessing'']
        = Some (report (snd (finalize_report clock stat st)))"
    unfolding m by (simp add: py_find_def dict_find_set key_eq_def)
  have e: "py_path (fst (finalize_report clock stat st))
          [PStr ''dak_api_processing'', PStr ''summary'', PStr ''total_dak_api_warnings'']
        = Some (PInt (int (length (warnings st))))"
    unfolding m by (simp add: py_find_def dict_find_set key_eq_def)
  from a b c d e show ?thesis by (intro conjI)
qed

theorem finalize_report_preserves_external_witness:
  "py_find (fst (finalize_report (\<lambda>n. ''t'') ''completed''
       (add_warning (\<lambda>n. ''t'') ''w'' PNone
          (snd (load_existing_ig_qa (Loaded (PDict [(PStr ''ok'', PBool True)]))
             (init (\<lambda>n. ''t'') 0 ''postprocessing'')))))) (PStr ''ok'')
     = Some (PBool True)
   \<and> py_keys (fst (finalize_report (\<lambda>n. ''t'') ''completed''
       (add_warning (\<lambda>n. ''t'') ''w'' PNone
          (snd (load_existing_ig_qa (Loaded (PDict [(PStr ''ok'', PBool True)]))
             (init (\<lambda>n. ''t'') 0 ''postprocessing''))))))
     = [PStr ''ok'', PStr ''dak_api_processing'']
   \<and> py_path (fst (finalize_report (\<lambda>n. ''t'') ''completed''
       (add_warning (\<lambda>n. ''t'') ''w'' PNone
          (snd (load_existing_ig_qa (Loaded (PDict [(PStr ''ok'', PBool True)]))
             (init (\<lambda>n. ''t'') 0 ''postprocessing''))))))
        [PStr ''dak_api_processing'', PStr ''summary'', PStr ''total_dak_api_warnings'']
     = Some (PInt 1)"
proof -
  let ?st = "add_warning (\<lambda>n. ''t'') ''w'' PNone
          (snd (load_existing_ig_qa (Loaded (PDict [(PStr ''ok'', PBool True)]))
             (init (\<lambda>n. ''t'') 0 ''postprocessing'')))"
  have i: "ig_publisher_qa ?st = PDict [(PStr ''ok'', PBool True)]"
    and s: "stored_preprocessing_reports ?st = []"
    and w: "length (warnings ?st) = 1"
    by (simp_all add: add_warning_def now_def load_existing_ig_qa_def init_def)
  have n: "[(PStr ''ok'', PBool True)] \<noteq> []" by simp
  have r: "\<forall>j < length (stored_preprocessing_reports ?st).
      \<exists>m. report_name j (stored_preprocessing_reports ?st ! j) = Inr m"
    by (simp add: s)
  note t = finalize_report_preserves_external [OF i n r, of "\<lambda>n. ''t''" "''completed''"]
  from t [THEN conjunct1, rule_format, of "PStr ''ok''"]
  have a: "py_find (fst (finalize_report (\<lambda>n. ''t'') ''completed'' ?st)) (PStr ''ok'')
      = Some (PBool True)"
    by (simp add: key_eq_def)
  from t [THEN conjunct2, THEN conjunct1]
  have b: "py_keys (fst (finalize_report (\<lambda>n. ''t'') ''completed'' ?st))
      = [PStr ''ok'', PStr ''dak_api_processing'']"
    by (simp add: key_eq_def)
  from t [THEN conjunct2, THEN conjunct2, THEN conjunct2, THEN conjunct2]
  have c: "py_path (fst (finalize_report (\<lambda>n. ''t'') ''completed'' ?st))
        [PStr ''dak_api_processing'', PStr ''summary'', PStr ''total_dak_api_warnings'']
     = Some (PInt 1)"
    by (simp add: w)
  from a b c show ?thesis by (intro conjI)
qed

text \<open>
  C9.  The claim as stated fails: of two reports with the same name the merged report
  keeps the second, not the first.
\<close>

theorem merged_reports_counterexample:
  "py_path (fst (finalize_report (\<lambda>n. ''t'') ''completed''
       (merge_reports (\<lambda>n. ''t'') (\<lambda>v. ''?'')
          [PDict [(PStr ''component'', PStr ''schemas''), (PStr ''run'', PInt 1)],
           PDict [(PStr ''component'', PStr ''schemas''), (PStr ''run'', PInt 2)]]
          (snd (load_existing_ig_qa (Loaded (PDict [(PStr ''ok'', PBool True)]))
             (init (\<lambda>n. ''t'') 0 ''postprocessing''))))))
     [PStr ''dak_api_processing'', PStr ''preprocessing_reports'', PStr ''schemas'']
   \<noteq> Some (PDict [(PStr ''component'', PStr ''schemas''), (PStr ''run'', PInt 1)])"
proof -
  let ?reps = "[PDict [(PStr ''component'', PStr ''schemas''), (PStr ''run'', PInt 1)],
           PDict [(PStr ''component'', PStr ''schemas''), (PStr ''run'', PInt 2)]]"
  let ?base = "snd (load_existing_ig_qa (Loaded (PDict [(PStr ''ok'', PBool True)]))
             (init (\<lambda>n. ''t'') 0 ''postprocessing''))"
  let ?st = "merge_reports (\<lambda>n. ''t'') (\<lambda>v. ''?'') ?reps ?base"
  have "kept ?st = (ig_publisher_qa ?base, stored_preprocessing_reports ?base @ ?reps)"
    by (rule merge_reports_kept)
  then have i: "ig_publisher_qa ?st = PDict [(PStr ''ok'', PBool True)]"
    and s: "stored_preprocessing_reports ?st = ?reps"
    by (simp_all add: kept_def load_existing_ig_qa_def init_def)
  have n: "[(PStr ''ok'', PBool True)] \<noteq> []" by simp
  have p: "preprocessing_reports 0 (stored_preprocessing_reports ?st) []
      = Inr [(PStr ''schemas'',
              PDict [(PStr ''component'', PStr ''schemas''), (PStr ''run'', PInt 2)])]"
    unfolding s by (simp add: report_name_def dict_get_def key_eq_def)
  show ?thesis
    unfolding finalize_report_merged [OF i n p]
    by (simp add: py_find_def key_eq_def)
qed

text \<open>
  C9, amended.  After a sequence of calls of \<open>merge_preprocessing_report\<close> on a
  reporter with nothing stored, the finalized merged report holds under a name the last
  report received with that name: a later report overwrites an earlier one of the same
  name.
\<close>

theorem merged_reports_last_wins:
  assumes "ig_publisher_qa st = PDict ext" and "ext \<noteq> []"
    and "stored_preprocessing_reports st = []"
    and "\<forall>l < length reps. \<exists>m. report_name l (reps ! l) = Inr m"
    and "j < length reps" and "report_name j (reps ! j) = Inr n"
    and "\<forall>l < length reps. j < l \<longrightarrow>
           (\<forall>m. report_name l (reps ! l) = Inr m \<longrightarrow> \<not> key_eq m n)"
  shows "py_path (fst (finalize_report clock stat (merge_reports clock repr reps st)))
           [PStr ''dak_api_processing'', PStr ''preprocessing_reports'', n]
         = Some (reps ! j)"
proof -
  let ?st = "merge_reports clock repr reps st"
  from merge_reports_kept [of clock repr reps st] assms(1,3)
  have k: "ig_publisher_qa ?st = PDict ext" "stored_preprocessing_reports ?st = reps"
    by (simp_all add: kept_def)
  have "py_path (fst (finalize_report clock stat ?st))
           [PStr ''dak_api_processing'', PStr ''preprocessing_reports'', n]
         = last_report 0 reps n"
    using finalize_report_reports [OF k(1) assms(2), of clock stat n] assms(4) k(2) by simp
  also have "last_report 0 reps n = Some (reps ! j)"
    using last_report_last [of j reps 0 n] assms(5,6,7) by simp
  finally show ?thesis .
qed

theorem merged_reports_last_wins_witness:
  "py_path (fst (finalize_report (\<lambda>n. ''t'') ''completed''
       (merge_reports (\<lambda>n. ''t'') (\<lambda>v. ''?'')
          [PDict [(PStr ''component'', PStr ''schemas''), (PStr ''run'', PInt 1)],
           PDict [(PStr ''component'', PStr ''schemas''), (PStr ''run'', PInt 2)]]
          (snd (load_existing_ig_qa (Loaded (PDict [(PStr ''ok'', PBool True)]))
             (init (\<lambda>n. ''t'') 0 ''postprocessing''))))))
     [PStr ''dak_api_processing'', PStr ''preprocessing_reports'', PStr ''schemas'']
   = Some (PDict [(PStr ''component'', PStr ''schemas''), (PStr ''run'', PInt 2)])"
proof -
  let ?reps = "[PDict [(PStr ''component'', PStr ''schemas''), (PStr ''run'', PInt 1)],
           PDict [(PStr ''component'', PStr ''schemas''), (PStr ''run'', PInt 2)]]"
  let ?st = "snd (load_existing_ig_qa (Loaded (PDict [(PStr ''ok'', PBool True)]))
             (init (\<lambda>n. ''t'') 0 ''postprocessing''))"
  have i: "ig_publisher_qa ?st = PDict [(PStr ''ok'', PBool True)]"
    and s: "stored_preprocessing_reports ?st = []"
    by (simp_all add: load_existing_ig_qa_def init_def)
  have n: "[(PStr ''ok'', PBool True)] \<noteq> []" by simp
  have names: "report_name l (?reps ! l) = Inr (PStr ''schemas'')" if "l < length ?reps" for l
  proof -
    from that have "l = 0 \<or> l = 1" by auto
    then show ?thesis
      by (auto simp: report_name_def dict_get_def key_eq_def)
  qed
  have a: "\<forall>l < length ?reps. \<exists>m. report_name l (?reps ! l) = Inr m"
    using names by blast
  have j: "(1::nat) < length ?reps" by simp
  have l: "\<forall>l < length ?reps. 1 < l \<longrightarrow>
      (\<forall>m. report_name l (?reps ! l) = Inr m \<longrightarrow> \<not> key_eq m (PStr ''schemas''))"
    by simp
  from merged_reports_last_wins [OF i n s a j names [OF j] l, of "\<lambda>n. ''t''" "''completed''" "\<lambda>v. ''?''"]
  show ?thesis by simp
qed

section \<open>Files and JSON\<close>

text \<open>
  The part of the file system the script touches (a POSIX system, as for the paths).
  An entry is a file with the text it holds, or something that exists but cannot be
  read as text (a directory, a file without permission or with invalid encoding).
  Opening a locked path for writing raises and leaves the entry as it is.
\<close>

datatype node = Text string | Opaque

record filesystem =
  nodes :: "string \<Rightarrow> node option"
  locked :: "string \<Rightarrow> bool"

definition os_path_exists :: "filesystem \<Rightarrow> string \<Rightarrow> bool" where
  "os_path_exists fs p = (nodes fs p \<noteq> None)"

text \<open>The text a file holds, as it is stored.\<close>

definition file_text :: "filesystem \<Rightarrow> string \<Rightarrow> error + string" where
  "file_text fs p = (case nodes fs p of Some (Text s) \<Rightarrow> Inr s | _ \<Rightarrow> Inl OSError)"

text \<open>
  \<open>open(path, "r", encoding="utf-8")\<close> followed by \<open>read()\<close>: no \<open>newline\<close> argument
  is given, so the text is read with universal newlines, a carriage return followed by
  a line feed and a lone carriage return both read as one line feed.
\<close>

fun universal_newlines :: "string \<Rightarrow> string" where
  "universal_newlines [] = []"
| "universal_newlines [c] = [if c = CHR 0x0D then CHR 0x0A else c]"
| "universal_newlines (c # d # s) =
     (if c = CHR 0x0D
      then CHR 0x0A # (if d = CHR 0x0A then universal_newlines s else universal_newlines (d # s))
      else c # universal_newlines (d # s))"

definition read_text :: "filesystem \<Rightarrow> string \<Rightarrow> error + string" where
  "read_text fs p =
     (case nodes fs p of Some (Text s) \<Rightarrow> Inr (universal_newlines s) | _ \<Rightarrow> Inl OSError)"

text \<open>
  \<open>open(path, "w", encoding="utf-8")\<close> followed by \<open>write(s)\<close>: a line feed is written
  as the line separator of the system, which is the line feed itself.
\<close>

definition write_text :: "filesystem \<Rightarrow> string \<Rightarrow> string \<Rightarrow> error + filesystem" where
  "write_text fs p s =
     (if locked fs p then Inl OSError else Inr (fs\<lparr>nodes := (nodes fs)(p \<mapsto> Text s)\<rparr>))"

text \<open>
  \<open>json.load\<close> and \<open>json.dump\<close> are parameters: \<open>loads\<close> parses a text (\<open>None\<close> when
  the text is not JSON), \<open>dumps\<close> is the text written for a value with \<open>indent=2\<close>.
\<close>

definition load_json :: "(string \<Rightarrow> py option) \<Rightarrow> filesystem \<Rightarrow> string \<Rightarrow> error + py" where
  "load_json loads fs p =
     (case read_text fs p of
        Inl e \<Rightarrow> Inl e
      | Inr s \<Rightarrow> (case loads s of None \<Rightarrow> Inl ValueError | Some v \<Rightarrow> Inr v))"

text \<open>\<open>os.path.basename\<close>: what follows the last separator.\<close>

definition os_path_basename :: "string \<Rightarrow> string" where
  "os_path_basename p = rev (takeWhile (\<lambda>c. c \<noteq> CHR ''/'') (rev p))"

text \<open>\<open>len(v)\<close>; numbers, booleans and \<open>None\<close> have no length.\<close>

fun py_len :: "py \<Rightarrow> error + nat" where
  "py_len (PStr s) = Inr (length s)"
| "py_len (PList xs) = Inr (length xs)"
| "py_len (PDict d) = Inr (length d)"
| "py_len v = Inl TypeError"

text \<open>
  \<open>s.replace(old, new)\<close>: the occurrences of \<open>old\<close> found from left to right, without
  overlap; an empty \<open>old\<close> matches before every character and at the end.
\<close>

fun replace_from :: "string \<Rightarrow> string \<Rightarrow> string \<Rightarrow> string" where
  "replace_from old new [] = []"
| "replace_from old new (c # cs) =
     (if startswith (c # cs) old then new @ replace_from old new (drop (length old - 1) cs)
      else c # replace_from old new cs)"

definition str_replace :: "string \<Rightarrow> string \<Rightarrow> string \<Rightarrow> string" where
  "str_replace s old new =
     (if old = [] then new @ concat (map (\<lambda>c. c # new) s) else replace_from old new s)"

section \<open>DAKApiHubGenerator.create_enumeration_schema\<close>

text \<open>
  The body of the inner \<open>try\<close> for one schema path: the entry appended to
  \<open>schemas_list\<close>, or the exception that makes the loop skip the path.
\<close>

definition counted :: "pydict \<Rightarrow> string \<Rightarrow> string \<Rightarrow> pydict \<Rightarrow> error + pydict" where
  "counted schema key count_key e =
     (case dict_find schema (PStr key) of
        None \<Rightarrow> Inr e
      | Some v \<Rightarrow> (case py_len v of
                     Inl err \<Rightarrow> Inl err
                   | Inr n \<Rightarrow> Inr (dict_set e (PStr count_key) (PInt (int n)))))"

definition linked :: "pydict \<Rightarrow> string \<Rightarrow> string \<Rightarrow> pydict \<Rightarrow> pydict" where
  "linked schema key url_key e =
     (case dict_find schema (PStr key) of
        None \<Rightarrow> e
      | Some v \<Rightarrow> dict_set e (PStr url_key) v)"

definition schema_entry :: "string \<Rightarrow> string \<Rightarrow> py \<Rightarrow> error + py" where
  "schema_entry schema_type schema_path schema =
     (case schema of
        PDict d \<Rightarrow>
          (let schema_filename = os_path_basename schema_path;
               e = [(PStr ''filename'', PStr schema_filename),
                    (PStr ''id'', dict_get d (PStr ''$id'') (PStr '''')),
                    (PStr ''title'', dict_get d (PStr ''title'') (PStr schema_filename)),
                    (PStr ''description'', dict_get d (PStr ''description'') (PStr '''')),
                    (PStr ''url'', PStr (''./'' @ schema_filename))]
           in case (if schema_type = ''valueset''
                    then counted d ''enum'' ''codeCount'' (linked d ''fhir:valueSet'' ''valueSetUrl'' e)
                    else counted d ''properties'' ''propertyCount''
                           (linked d ''fhir:logicalModel'' ''logicalModelUrl'' e)) of
                Inl err \<Rightarrow> Inl err
              | Inr e' \<Rightarrow> Inr (PDict e'))
      | _ \<Rightarrow> Inl AttributeError)"

definition read_entry ::
  "(string \<Rightarrow> py option) \<Rightarrow> filesystem \<Rightarrow> string \<Rightarrow> string \<Rightarrow> error + py" where
  "read_entry loads fs schema_type schema_path =
     (case load_json loads fs schema_path of
        Inl e \<Rightarrow> Inl e
      | Inr schema \<Rightarrow> schema_entry schema_type schema_path schema)"

fun schemas_list ::
  "(string \<Rightarrow> py option) \<Rightarrow> filesystem \<Rightarrow> string \<Rightarrow> string list \<Rightarrow> py list \<Rightarrow> py list" where
  "schemas_list loads fs schema_type [] acc = acc"
| "schemas_list loads fs schema_type (schema_path # rest) acc =
     (case read_entry loads fs schema_type schema_path of
        Inl e \<Rightarrow> schemas_list loads fs schema_type rest acc
      | Inr item \<Rightarrow> schemas_list loads fs schema_type rest (acc @ [item]))"

definition enum_filename :: "string \<Rightarrow> string" where
  "enum_filename schema_type =
     (if schema_type = ''valueset'' then ''ValueSets.schema.json''
      else ''LogicalModels.schema.json'')"

definition enumeration_schema :: "string \<Rightarrow> py list \<Rightarrow> py" where
  "enumeration_schema schema_type entries = PDict
     [(PStr ''$schema'', PStr ''https://json-schema.org/draft/2020-12/schema''),
      (PStr ''$id'', PStr (''#/'' @ enum_filename schema_type)),
      (PStr ''title'',
         PStr (if schema_type = ''valueset'' then ''ValueSet Enumeration Schema''
               else ''Logical Model Enumeration Schema'')),
      (PStr ''description'',
         PStr (if schema_type = ''valueset''
               then ''JSON Schema defining the structure of the ValueSet enumeration endpoint response''
               else ''JSON Schema defining the structure of the Logical Model enumeration endpoint response'')),
      (PStr ''type'', PStr ''object''),
      (PStr ''properties'', PDict
         [(PStr ''type'', PDict [(PStr ''type'', PStr ''string''), (PStr ''const'', PStr schema_type)]),
          (PStr ''count'', PDict [(PStr ''type'', PStr ''integer'')]),
          (PStr ''schemas'', PDict
             [(PStr ''type'', PStr ''array''),
              (PStr ''items'', PDict
                 [(PStr ''type'', PStr ''object''),
                  (PStr ''properties'', PDict
                     ([(PStr ''filename'', PDict [(PStr ''type'', PStr ''string'')]),
                       (PStr ''id'', PDict [(PStr ''type'', PStr ''string'')]),
                       (PStr ''title'', PDict [(PStr ''type'', PStr ''string'')]),
                       (PStr ''description'', PDict [(PStr ''type'', PStr ''string'')]),
                       (PStr ''url'', PDict [(PStr ''type'', PStr ''string'')])]
                      @ (if schema_type = ''valueset''
                         then [(PStr ''valueSetUrl'', PDict [(PStr ''type'', PStr ''string'')]),
                               (PStr ''codeCount'', PDict [(PStr ''type'', PStr ''integer'')])]
                         else [(PStr ''logicalModelUrl'', PDict [(PStr ''type'', PStr ''string'')]),
                               (PStr ''propertyCount'', PDict [(PStr ''type'', PStr ''integer'')])]))),
                  (PStr ''required'', PList [PStr ''filename'', PStr ''title'', PStr ''url''])])])]),
      (PStr ''required'', PList [PStr ''type'', PStr ''count'', PStr ''schemas'']),
      (PStr ''example'', PDict
         [(PStr ''type'', PStr schema_type),
          (PStr ''count'', PInt (int (length entries))),
          (PStr ''schemas'', PList entries)])]"

definition create_enumeration_schema ::
  "(string \<Rightarrow> py option) \<Rightarrow> (py \<Rightarrow> string) \<Rightarrow> string \<Rightarrow> string list \<Rightarrow> string
   \<Rightarrow> filesystem \<Rightarrow> string option \<times> filesystem" where
  "create_enumeration_schema loads dumps schema_type schema_files output_dir fs =
     (let entries = schemas_list loads fs schema_type schema_files [];
          enum_path = os_path_join output_dir (enum_filename schema_type)
      in case write_text fs enum_path (dumps (enumeration_schema schema_type entries)) of
           Inl e \<Rightarrow> (None, fs)
         | Inr fs' \<Rightarrow> (Some enum_path, fs'))"

text \<open>
  A parsed schema whose entry can be built: a dictionary whose \<open>enum\<close> (for a value
  set) or \<open>properties\<close> (otherwise), when present, has a length.
\<close>

fun has_len :: "py \<Rightarrow> bool" where
  "has_len (PStr s) = True"
| "has_len (PList xs) = True"
| "has_len (PDict d) = True"
| "has_len v = False"

definition well_formed :: "string \<Rightarrow> py \<Rightarrow> bool" where
  "well_formed schema_type schema =
     (case schema of
        PDict d \<Rightarrow>
          (case dict_find d (PStr (if schema_type = ''valueset'' then ''enum'' else ''properties'')) of
             None \<Rightarrow> True
           | Some v \<Rightarrow> has_len v)
      | _ \<Rightarrow> False)"

lemma has_len_py_len: "has_len v \<Longrightarrow> \<exists>n. py_len v = Inr n"
  by (cases v) simp_all

lemma counted_Inr:
  assumes "case dict_find d (PStr key) of None \<Rightarrow> True | Some v \<Rightarrow> has_len v"
  shows "\<exists>e'. counted d key ck e = Inr e'"
proof (cases "dict_find d (PStr key)")
  case None
  then show ?thesis by (simp add: counted_def)
next
  case (Some v)
  with assms have "has_len v" by simp
  from has_len_py_len [OF this] Some show ?thesis by (auto simp: counted_def)
qed

lemma well_formed_entry:
  assumes "well_formed schema_type schema"
  shows "\<exists>e. schema_entry schema_type p schema = Inr e"
proof -
  from assms obtain d where d: "schema = PDict d"
    by (cases schema) (simp_all add: well_formed_def)
  show ?thesis
  proof (cases "schema_type = ''valueset''")
    case True
    with assms d have "case dict_find d (PStr ''enum'') of None \<Rightarrow> True | Some v \<Rightarrow> has_len v"
      by (simp add: well_formed_def)
    from counted_Inr [OF this] True d show ?thesis
      by (simp add: schema_entry_def Let_def split: sum.splits) (metis sum.distinct(1))
  next
    case False
    with assms d
    have "case dict_find d (PStr ''properties'') of None \<Rightarrow> True | Some v \<Rightarrow> has_len v"
      by (simp add: well_formed_def)
    from counted_Inr [OF this] False d show ?thesis
      by (simp add: schema_entry_def Let_def split: sum.splits) (metis sum.distinct(1))
  qed
qed

lemma schemas_list_acc:
  "schemas_list loads fs t ps acc = acc @ schemas_list loads fs t ps []"
proof (induction ps arbitrary: acc)
  case Nil
  then show ?case by simp
next
  case (Cons p ps)
  show ?case
  proof (cases "read_entry loads fs t p")
    case (Inl e)
    with Cons.IH [of acc] show ?thesis by simp
  next
    case (Inr item)
    with Cons.IH [of "acc @ [item]"] Cons.IH [of "[item]"] show ?thesis by simp
  qed
qed

lemma schemas_list_append:
  "schemas_list loads fs t (xs @ ys) [] = schemas_list loads fs t xs [] @ schemas_list loads fs t ys []"
proof (induction xs)
  case Nil
  then show ?case by simp
next
  case (Cons p ps)
  show ?case
  proof (cases "read_entry loads fs t p")
    case (Inl e)
    with Cons.IH show ?thesis by simp
  next
    case (Inr item)
    with Cons.IH schemas_list_acc [of loads fs t ps "[item]"]
      schemas_list_acc [of loads fs t "ps @ ys" "[item]"]
    show ?thesis by simp
  qed
qed

lemma schemas_list_skip:
  assumes "load_json loads fs p = Inl e"
  shows "schemas_list loads fs t (xs @ p # ys) [] = schemas_list loads fs t (xs @ ys) []"
proof -
  from assms have "read_entry loads fs t p = Inl e" by (simp add: read_entry_def)
  then have "schemas_list loads fs t (p # ys) [] = schemas_list loads fs t ys []" by simp
  then show ?thesis by (simp only: schemas_list_append)
qed

lemma schemas_list_all:
  assumes "\<forall>p \<in> set ps. \<exists>s. load_json loads fs p = Inr s \<and> well_formed t s"
  shows "length (schemas_list loads fs t ps []) = length ps"
  using assms
proof (induction ps)
  case Nil
  then show ?case by simp
next
  case (Cons p ps)
  from Cons.prems obtain s where s: "load_json loads fs p = Inr s" "well_formed t s" by auto
  from well_formed_entry [OF s(2), of p] obtain item where "schema_entry t p s = Inr item" ..
  with s(1) have "read_entry loads fs t p = Inr item" by (simp add: read_entry_def)
  moreover have "length (schemas_list loads fs t ps []) = length ps"
    using Cons by simp
  ultimately show ?case
    using schemas_list_acc [of loads fs t ps "[item]"] by simp
qed

lemma schemas_list_one_bad:
  assumes "i < length ps" and "load_json loads fs (ps ! i) = Inl e"
    and "\<forall>j < length ps. j \<noteq> i \<longrightarrow> (\<exists>s. load_json loads fs (ps ! j) = Inr s \<and> well_formed t s)"
  shows "length (schemas_list loads fs t ps []) = length ps - 1"
proof -
  have ps: "ps = take i ps @ ps ! i # drop (Suc i) ps"
    using assms(1) by (rule id_take_nth_drop)
  have a: "\<forall>p \<in> set (take i ps). \<exists>s. load_json loads fs p = Inr s \<and> well_formed t s"
  proof
    fix p assume "p \<in> set (take i ps)"
    then obtain j where "j < i" "j < length ps" "p = ps ! j"
      using assms(1) by (auto simp: in_set_conv_nth)
    with assms(3) show "\<exists>s. load_json loads fs p = Inr s \<and> well_formed t s" by auto
  qed
  have b: "\<forall>p \<in> set (drop (Suc i) ps). \<exists>s. load_json loads fs p = Inr s \<and> well_formed t s"
  proof
    fix p assume "p \<in> set (drop (Suc i) ps)"
    then obtain j where "j < length ps - Suc i" "p = ps ! (Suc i + j)"
      by (auto simp: in_set_conv_nth)
    then have "Suc i + j < length ps" by arith
    with \<open>p = ps ! (Suc i + j)\<close> have "Suc i + j < length ps" "p = ps ! (Suc i + j)" by simp_all
    with assms(3) [rule_format, of "Suc i + j"]
    show "\<exists>s. load_json loads fs p = Inr s \<and> well_formed t s" by auto
  qed
  have "schemas_list loads fs t ps []
      = schemas_list loads fs t (take i ps @ drop (Suc i) ps) []"
    using schemas_list_skip [OF assms(2), of t "take i ps" "drop (Suc i) ps"] ps by simp
  then have "length (schemas_list loads fs t ps [])
      = length (take i ps) + length (drop (Suc i) ps)"
    by (simp only: schemas_list_append length_append schemas_list_all [OF a]
        schemas_list_all [OF b])
  with assms(1) show ?thesis by simp
qed

lemma enumeration_schema_example:
  "py_path (enumeration_schema t l) [PStr ''example'', PStr ''count''] = Some (PInt (int (length l)))"
  "py_path (enumeration_schema t l) [PStr ''example'', PStr ''schemas''] = Some (PList l)"
  by (simp_all add: enumeration_schema_def py_find_def key_eq_def)

text \<open>
  C6.  When the catalog file can be written, \<open>create_enumeration_schema\<close> returns its
  path and the file holds the dump of a catalog whose example has \<open>count\<close> equal to
  the length of its \<open>schemas\<close> array; a path whose schema cannot be read or parsed
  contributes no entry and the paths around it are processed as without it; and with
  five paths, one that cannot be loaded and four that load to well-formed schemas, the
  array has exactly four entries.
\<close>

theorem catalog_count:
  assumes "\<not> locked fs (os_path_join output_dir (enum_filename schema_type))"
  shows "fst (create_enumeration_schema loads dumps schema_type schema_files output_dir fs)
           = Some (os_path_join output_dir (enum_filename schema_type))
    \<and> file_text (snd (create_enumeration_schema loads dumps schema_type schema_files output_dir fs))
          (os_path_join output_dir (enum_filename schema_type))
        = Inr (dumps (enumeration_schema schema_type
                 (schemas_list loads fs schema_type schema_files [])))
    \<and> py_path (enumeration_schema schema_type (schemas_list loads fs schema_type schema_files []))
          [PStr ''example'', PStr ''count'']
        = Some (PInt (int (length (schemas_list loads fs schema_type schema_files []))))
    \<and> py_path (enumeration_schema schema_type (schemas_list loads fs schema_type schema_files []))
          [PStr ''example'', PStr ''schemas'']
        = Some (PList (schemas_list loads fs schema_type schema_files []))
    \<and> (\<forall>xs p ys. (\<exists>e. load_json loads fs p = Inl e) \<longrightarrow>
          schemas_list loads fs schema_type (xs @ p # ys) []
            = schemas_list loads fs schema_type (xs @ ys) [])
    \<and> (length schema_files = 5
         \<and> (\<exists>i < 5. (\<exists>e. load_json loads fs (schema_files ! i) = Inl e)
               \<and> (\<forall>j < 5. j \<noteq> i \<longrightarrow>
                     (\<exists>s. load_json loads fs (schema_files ! j) = Inr s
                          \<and> well_formed schema_type s)))
         \<longrightarrow> length (schemas_list loads fs schema_type schema_files []) = 4)"
proof -
  let ?l = "schemas_list loads fs schema_type schema_files []"
  let ?p = "os_path_join output_dir (enum_filename schema_type)"
  let ?r = "create_enumeration_schema loads dumps schema_type schema_files output_dir fs"
  have r: "?r = (Some ?p,
      fs\<lparr>nodes := (nodes fs)(?p \<mapsto> Text (dumps (enumeration_schema schema_type ?l)))\<rparr>)"
    using assms by (simp add: create_enumeration_schema_def write_text_def Let_def)
  have a: "fst ?r = Some ?p" by (simp add: r)
  have b: "file_text (snd ?r) ?p = Inr (dumps (enumeration_schema schema_type ?l))"
    by (simp add: r file_text_def)
  have e: "\<forall>xs p ys. (\<exists>e. load_json loads fs p = Inl e) \<longrightarrow>
          schemas_list loads fs schema_type (xs @ p # ys) []
            = schemas_list loads fs schema_type (xs @ ys) []"
    using schemas_list_skip by blast
  have f: "length schema_files = 5
         \<and> (\<exists>i < 5. (\<exists>e. load_json loads fs (schema_files ! i) = Inl e)
               \<and> (\<forall>j < 5. j \<noteq> i \<longrightarrow>
                     (\<exists>s. load_json loads fs (schema_files ! j) = Inr s
                          \<and> well_formed schema_type s)))
         \<longrightarrow> length ?l = 4"
  proof
    assume h: "length schema_files = 5
         \<and> (\<exists>i < 5. (\<exists>e. load_json loads fs (schema_files ! i) = Inl e)
               \<and> (\<forall>j < 5. j \<noteq> i \<longrightarrow>
                     (\<exists>s. load_json loads fs (schema_files ! j) = Inr s
                          \<and> well_formed schema_type s)))"
    then obtain i e where i: "i < 5" "load_json loads fs (schema_files ! i) = Inl e"
      and o: "\<forall>j < 5. j \<noteq> i \<longrightarrow>
          (\<exists>s. load_json loads fs (schema_files ! j) = Inr s \<and> well_formed schema_type s)"
      by blast
    from h have n: "length schema_files = 5" by simp
    from schemas_list_one_bad [of i schema_files loads fs e schema_type] i o n
    show "length ?l = 4" by simp
  qed
  from a b e f show ?thesis
    by (simp only: enumeration_schema_example simp_thms)
qed

theorem catalog_count_witness:
  "fst (create_enumeration_schema (\<lambda>s. if s = ''{}'' then Some (PDict []) else None) (\<lambda>v. ''doc'')
      ''valueset''
      [''s/ValueSet-a.schema.json'', ''s/ValueSet-b.schema.json'', ''s/ValueSet-c.schema.json'',
       ''s/ValueSet-d.schema.json'', ''s/ValueSet-e.schema.json'']
      ''out''
      \<lparr>nodes = (\<lambda>p. if p = ''s/ValueSet-c.schema.json'' then Some Opaque else Some (Text ''{}'')),
       locked = (\<lambda>p. False)\<rparr>)
     = Some ''out/ValueSets.schema.json''
   \<and> py_path (enumeration_schema ''valueset''
        (schemas_list (\<lambda>s. if s = ''{}'' then Some (PDict []) else None)
           \<lparr>nodes = (\<lambda>p. if p = ''s/ValueSet-c.schema.json'' then Some Opaque
                          else Some (Text ''{}'')),
            locked = (\<lambda>p. False)\<rparr>
           ''valueset''
           [''s/ValueSet-a.schema.json'', ''s/ValueSet-b.schema.json'', ''s/ValueSet-c.schema.json'',
            ''s/ValueSet-d.schema.json'', ''s/ValueSet-e.schema.json''] []))
        [PStr ''example'', PStr ''count'']
     = Some (PInt 4)"
proof -
  let ?loads = "\<lambda>s. if s = ''{}'' then Some (PDict []) else None"
  let ?fs = "\<lparr>nodes = (\<lambda>p. if p = ''s/ValueSet-c.schema.json'' then Some Opaque
                          else Some (Text ''{}'')),
            locked = (\<lambda>p. False)\<rparr>"
  let ?files = "[''s/ValueSet-a.schema.json'', ''s/ValueSet-b.schema.json'',
       ''s/ValueSet-c.schema.json'', ''s/ValueSet-d.schema.json'', ''s/ValueSet-e.schema.json'']"
  have u: "\<not> locked ?fs (os_path_join ''out'' (enum_filename ''valueset''))" by simp
  have p: "os_path_join ''out'' (enum_filename ''valueset'') = ''out/ValueSets.schema.json''"
    by (simp add: os_path_join_def enum_filename_def startswith_def endswith_def)
  have bad: "\<exists>e. load_json ?loads ?fs (?files ! 2) = Inl e"
    by (simp add: load_json_def read_text_def)
  have good: "\<exists>s. load_json ?loads ?fs (?files ! j) = Inr s \<and> well_formed ''valueset'' s"
    if "j < 5" "j \<noteq> 2" for j
  proof -
    from that have "j = 0 \<or> j = 1 \<or> j = 3 \<or> j = 4" by arith
    then show ?thesis
      by (auto simp: load_json_def read_text_def well_formed_def)
  qed
  have five: "length ?files = 5
         \<and> (\<exists>i < 5. (\<exists>e. load_json ?loads ?fs (?files ! i) = Inl e)
               \<and> (\<forall>j < 5. j \<noteq> i \<longrightarrow>
                     (\<exists>s. load_json ?loads ?fs (?files ! j) = Inr s
                          \<and> well_formed ''valueset'' s)))"
  proof (intro conjI)
    show "length ?files = 5" by simp
    show "\<exists>i < 5. (\<exists>e. load_json ?loads ?fs (?files ! i) = Inl e)
               \<and> (\<forall>j < 5. j \<noteq> i \<longrightarrow>
                     (\<exists>s. load_json ?loads ?fs (?files ! j) = Inr s
                          \<and> well_formed ''valueset'' s))"
    proof (intro exI [of _ 2] conjI allI impI)
      show "(2::nat) < 5" by simp
      show "\<exists>e. load_json ?loads ?fs (?files ! 2) = Inl e" by (rule bad)
    next
      fix j :: nat assume "j < 5" "j \<noteq> 2"
      then show "\<exists>s. load_json ?loads ?fs (?files ! j) = Inr s \<and> well_formed ''valueset'' s"
        by (rule good)
    qed
  qed
  note t = catalog_count [OF u, of ?loads "\<lambda>v. ''doc''" ?files]
  from t [THEN conjunct1] have a: "fst (create_enumeration_schema ?loads (\<lambda>v. ''doc'')
      ''valueset'' ?files ''out'' ?fs) = Some ''out/ValueSets.schema.json''"
    by (simp only: p)
  from t [THEN conjunct2, THEN conjunct2, THEN conjunct2, THEN conjunct2, THEN conjunct2] five
  have n: "length (schemas_list ?loads ?fs ''valueset'' ?files []) = 4" by blast
  from t [THEN conjunct2, THEN conjunct2, THEN conjunct1]
  have c: "py_path (enumeration_schema ''valueset'' (schemas_list ?loads ?fs ''valueset'' ?files []))
        [PStr ''example'', PStr ''count''] = Some (PInt 4)"
    by (simp only: n) simp
  from a c show ?thesis by (intro conjI)
qed

section \<open>OpenAPIWrapper.create_wrapper_for_schema\<close>







section \<open>Regular expressions\<close>

text \<open>
  The constructs of the pattern in \<open>inject_content_at_comment_marker\<close>: a literal, a
  greedy \<open>+\<close> and a greedy \<open>*\<close> over a character class, and a lazy \<open>*?\<close> over a
  character class.  \<open>rx_match\<close> is the backtracking matcher of \<open>re\<close>: it tries the
  alternatives of each construct in the order of preference (greedy: longest first;
  lazy: shortest first) and returns what follows the first match found.
\<close>

datatype item = Lit string | Plus "char \<Rightarrow> bool" | Star "char \<Rightarrow> bool" | Lazy "char \<Rightarrow> bool"

fun rx_match :: "item list \<Rightarrow> string \<Rightarrow> string option" where
  "rx_match [] s = Some s"
| "rx_match (Lit l # r) s =
     (if startswith s l then rx_match r (drop (length l) s) else None)"
| "rx_match (Plus p # r) [] = None"
| "rx_match (Plus p # r) (c # cs) = (if p c then rx_match (Star p # r) cs else None)"
| "rx_match (Star p # r) [] = rx_match r []"
| "rx_match (Star p # r) (c # cs) =
     (if p c then
        (case rx_match (Star p # r) cs of
           Some t \<Rightarrow> Some t
         | None \<Rightarrow> rx_match r (c # cs))
      else rx_match r (c # cs))"
| "rx_match (Lazy p # r) [] = rx_match r []"
| "rx_match (Lazy p # r) (c # cs) =
     (case rx_match r (c # cs) of
        Some t \<Rightarrow> Some t
      | None \<Rightarrow> (if p c then rx_match (Lazy p # r) cs else None))"

text \<open>\<open>re.search\<close>: the pattern matches at some position.\<close>

fun re_search :: "item list \<Rightarrow> string \<Rightarrow> bool" where
  "re_search pat [] = (rx_match pat [] \<noteq> None)"
| "re_search pat (c # cs) = (rx_match pat (c # cs) \<noteq> None \<or> re_search pat cs)"

text \<open>
  \<open>\s\<close> in a \<open>str\<close> pattern: the white space of Unicode, here for code points below
  256.
\<close>

definition is_space :: "char \<Rightarrow> bool" where
  "is_space c = (of_char c \<in> set [9, 10, 11, 12, 13, 28, 29, 30, 31, 32, 133, 160 :: nat])"

definition placeholder_id :: string where
  "placeholder_id = ''id='' @ [CHR 0x22] @ ''dak-api-content-placeholder'' @ [CHR 0x22]"

text \<open>
  \<open><div\s+id="dak-api-content-placeholder"[^>]*>.*?</div>\<close> with \<open>re.DOTALL\<close>.
\<close>

definition placeholder_pattern :: "item list" where
  "placeholder_pattern =
     [Lit ''<div'', Plus is_space, Lit placeholder_id, Star (\<lambda>c. c \<noteq> CHR ''>''), Lit ''>'',
      Lazy (\<lambda>c. True), Lit ''</div>'']"

text \<open>
  The words of a pattern, by the textbook reading of its constructs: \<open>accepts pat w\<close>
  holds when \<open>w\<close> as a whole is a word of \<open>pat\<close>.
\<close>

fun accepts :: "item list \<Rightarrow> string \<Rightarrow> bool" where
  "accepts [] w = (w = [])"
| "accepts (Lit l # r) w = (\<exists>v. w = l @ v \<and> accepts r v)"
| "accepts (Plus p # r) w = (\<exists>u v. w = u @ v \<and> u \<noteq> [] \<and> (\<forall>c \<in> set u. p c) \<and> accepts r v)"
| "accepts (Star p # r) w = (\<exists>u v. w = u @ v \<and> (\<forall>c \<in> set u. p c) \<and> accepts r v)"
| "accepts (Lazy p # r) w = (\<exists>u v. w = u @ v \<and> (\<forall>c \<in> set u. p c) \<and> accepts r v)"

lemma startswith_append: "startswith s l \<longleftrightarrow> (\<exists>v. s = l @ v)"
proof
  assume "startswith s l"
  then have "s = l @ drop (length l) s"
    by (metis append_take_drop_id startswith_def)
  then show "\<exists>v. s = l @ v" ..
next
  assume "\<exists>v. s = l @ v"
  then show "startswith s l" by (auto simp: startswith_def)
qed

lemma accepts_PlusI:
  "u \<noteq> [] \<Longrightarrow> \<forall>c \<in> set u. p c \<Longrightarrow> accepts r v \<Longrightarrow> accepts (Plus p # r) (u @ v)"
  by simp blast

lemma accepts_StarI:
  "\<forall>c \<in> set u. p c \<Longrightarrow> accepts r v \<Longrightarrow> accepts (Star p # r) (u @ v)"
  by simp blast

lemma accepts_LazyI:
  "\<forall>c \<in> set u. p c \<Longrightarrow> accepts r v \<Longrightarrow> accepts (Lazy p # r) (u @ v)"
  by simp blast

lemma accepts_StarI0: "accepts r v \<Longrightarrow> accepts (Star p # r) v"
  using accepts_StarI [of "[]" p r v] by simp

lemma accepts_LazyI0: "accepts r v \<Longrightarrow> accepts (Lazy p # r) v"
  using accepts_LazyI [of "[]" p r v] by simp

lemma rx_match_sound:
  "rx_match pat s = Some t \<Longrightarrow> \<exists>w. s = w @ t \<and> accepts pat w"
proof (induction pat s arbitrary: t rule: rx_match.induct)
  case (1 s)
  then show ?case by simp
next
  case (2 l r s)
  from "2.prems" have sw: "startswith s l" and m: "rx_match r (drop (length l) s) = Some t"
    by (auto split: if_splits)
  from sw obtain v where v: "s = l @ v" by (auto simp: startswith_append)
  from "2.IH" [OF sw m] v obtain w where "v = w @ t" "accepts r w" by auto
  with v show ?case by (intro exI [of _ "l @ w"]) auto
next
  case (3 p r)
  then show ?case by simp
next
  case (4 p r c cs)
  from "4.prems" have pc: "p c" and m: "rx_match (Star p # r) cs = Some t"
    by (auto split: if_splits)
  from "4.IH" [OF pc m] obtain u v where "cs = (u @ v) @ t" "\<forall>c \<in> set u. p c" "accepts r v"
    by auto
  with pc accepts_PlusI [of "c # u" p r v] show ?case
    by (intro exI [of _ "(c # u) @ v"]) simp
next
  case (5 p r)
  from "5.IH" [OF "5.prems" [simplified]] obtain w where "[] = w @ t" "accepts r w" by auto
  with accepts_StarI0 [of r w p] show ?case by (intro exI [of _ w]) simp
next
  case (6 p r c cs)
  show ?case
  proof (cases "p c \<and> rx_match (Star p # r) cs \<noteq> None")
    case True
    with "6.prems" have m: "rx_match (Star p # r) cs = Some t" by auto
    from "6.IH"(1) [OF _ m] True obtain u v where
      "cs = (u @ v) @ t" "\<forall>c \<in> set u. p c" "accepts r v" by auto
    with True accepts_StarI [of "c # u" p r v] show ?thesis
      by (intro exI [of _ "(c # u) @ v"]) simp
  next
    case False
    with "6.prems" have m: "rx_match r (c # cs) = Some t" by (auto split: if_splits)
    have "\<exists>w. c # cs = w @ t \<and> accepts r w"
    proof (cases "p c")
      case True
      with False have "rx_match (Star p # r) cs = None" by simp
      from "6.IH"(2) [OF True this m] show ?thesis .
    next
      case False
      from "6.IH"(3) [OF False m] show ?thesis .
    qed
    then obtain w where "c # cs = w @ t" "accepts r w" by auto
    with accepts_StarI0 [of r w p] show ?thesis by (intro exI [of _ w]) simp
  qed
next
  case (7 p r)
  from "7.IH" [OF "7.prems" [simplified]] obtain w where "[] = w @ t" "accepts r w" by auto
  with accepts_LazyI0 [of r w p] show ?case by (intro exI [of _ w]) simp
next
  case (8 p r c cs)
  show ?case
  proof (cases "rx_match r (c # cs)")
    case (Some t')
    with "8.prems" have "rx_match r (c # cs) = Some t" by simp
    from "8.IH"(1) [OF this] obtain w where "c # cs = w @ t" "accepts r w" by auto
    with accepts_LazyI0 [of r w p] show ?thesis by (intro exI [of _ w]) simp
  next
    case None
    with "8.prems" have pc: "p c" and m: "rx_match (Lazy p # r) cs = Some t"
      by (auto split: if_splits)
    from "8.IH"(2) [OF None pc m] obtain u v where
      "cs = (u @ v) @ t" "\<forall>c \<in> set u. p c" "accepts r v" by auto
    with pc accepts_LazyI [of "c # u" p r v] show ?thesis
      by (intro exI [of _ "(c # u) @ v"]) simp
  qed
qed

lemma rx_match_complete:
  "accepts pat w \<Longrightarrow> s = w @ t \<Longrightarrow> rx_match pat s \<noteq> None"
proof (induction pat s arbitrary: w t rule: rx_match.induct)
  case (1 s)
  then show ?case by simp
next
  case (2 l r s)
  from "2.prems" obtain v where v: "w = l @ v" "accepts r v" by auto
  with "2.prems" have sw: "startswith s l" by (auto simp: startswith_append)
  from v "2.prems" have "drop (length l) s = v @ t" by simp
  from "2.IH" [OF sw v(2) this] sw show ?case by simp
next
  case (3 p r)
  then show ?case by auto
next
  case (4 p r c cs)
  from "4.prems" obtain u v where u: "w = u @ v" "u \<noteq> []" "\<forall>c \<in> set u. p c" "accepts r v"
    by auto
  then obtain u' where u': "u = c # u'" using "4.prems"(2) by (cases u) auto
  with u have pc: "p c" by simp
  from u u' have a: "accepts (Star p # r) (u' @ v)" by (intro accepts_StarI) simp_all
  from u u' "4.prems"(2) have "cs = (u' @ v) @ t" by simp
  from "4.IH" [OF pc a this] pc show ?case by simp
next
  case (5 p r)
  then show ?case by auto
next
  case (6 p r c cs)
  from "6.prems" obtain u v where u: "w = u @ v" "\<forall>c \<in> set u. p c" "accepts r v" by auto
  show ?case
  proof (cases u)
    case Nil
    with u "6.prems"(2) have a: "accepts r w" "c # cs = w @ t" by simp_all
    show ?thesis
    proof (cases "p c")
      case True
      show ?thesis
      proof (cases "rx_match (Star p # r) cs")
        case None
        from "6.IH"(2) [OF True None a] True None show ?thesis by simp
      next
        case (Some t')
        with True show ?thesis by simp
      qed
    next
      case False
      from "6.IH"(3) [OF False a] False show ?thesis by simp
    qed
  next
    case (Cons c' u')
    with u "6.prems"(2) have c: "c' = c" "cs = (u' @ v) @ t" by simp_all
    from Cons u c have pc: "p c" by simp
    from u Cons have a: "accepts (Star p # r) (u' @ v)" by (intro accepts_StarI) simp_all
    from "6.IH"(1) [OF pc a c(2)] pc show ?thesis by (auto split: option.splits)
  qed
next
  case (7 p r)
  then show ?case by auto
next
  case (8 p r c cs)
  from "8.prems" obtain u v where u: "w = u @ v" "\<forall>c \<in> set u. p c" "accepts r v" by auto
  show ?case
  proof (cases "rx_match r (c # cs)")
    case (Some t')
    then show ?thesis by simp
  next
    case None
    show ?thesis
    proof (cases u)
      case Nil
      with u "8.prems"(2) have "accepts r w" "c # cs = w @ t" by simp_all
      from "8.IH"(1) [OF this] None show ?thesis by simp
    next
      case (Cons c' u')
      with u "8.prems"(2) have c: "c' = c" "cs = (u' @ v) @ t" by simp_all
      from Cons u c have pc: "p c" by simp
      from u Cons have a: "accepts (Lazy p # r) (u' @ v)" by (intro accepts_LazyI) simp_all
      from "8.IH"(2) [OF None pc a c(2)] pc None show ?thesis by simp
    qed
  qed
qed

lemma re_search_iff:
  "re_search pat s \<longleftrightarrow> (\<exists>pre w post. s = pre @ w @ post \<and> accepts pat w)"
proof (induction s)
  case Nil
  show ?case
  proof
    assume "re_search pat []"
    then obtain t where "rx_match pat [] = Some t" by auto
    from rx_match_sound [OF this] show "\<exists>pre w post. [] = pre @ w @ post \<and> accepts pat w"
      by auto
  next
    assume "\<exists>pre w post. [] = pre @ w @ post \<and> accepts pat w"
    then have "accepts pat []" by auto
    from rx_match_complete [OF this, of "[]" "[]"] show "re_search pat []" by simp
  qed
next
  case (Cons c cs)
  show ?case
  proof
    assume "re_search pat (c # cs)"
    then consider t where "rx_match pat (c # cs) = Some t" | "re_search pat cs" by auto
    then show "\<exists>pre w post. c # cs = pre @ w @ post \<and> accepts pat w"
    proof cases
      case 1
      from rx_match_sound [OF this] obtain w where "c # cs = w @ t" "accepts pat w" by auto
      then show ?thesis by (intro exI [of _ "[]"] exI [of _ w] exI [of _ t]) simp
    next
      case 2
      with Cons.IH obtain pre w post where "cs = pre @ w @ post" "accepts pat w" by auto
      then show ?thesis by (intro exI [of _ "c # pre"] exI [of _ w] exI [of _ post]) simp
    qed
  next
    assume "\<exists>pre w post. c # cs = pre @ w @ post \<and> accepts pat w"
    then obtain pre w post where p: "c # cs = pre @ w @ post" "accepts pat w" by auto
    show "re_search pat (c # cs)"
    proof (cases pre)
      case Nil
      with p have "c # cs = w @ post" by simp
      from rx_match_complete [OF p(2) this] show ?thesis by simp
    next
      case (Cons c' pre')
      with p have "cs = pre' @ w @ post" by simp
      with p(2) Cons.IH show ?thesis by auto
    qed
  qed
qed

lemma placeholder_shorter:
  assumes "rx_match placeholder_pattern s = Some t"
  shows "length t < length s"
proof -
  from rx_match_sound [OF assms] obtain w where w: "s = w @ t" "accepts placeholder_pattern w"
    by auto
  from w(2) obtain v where "w = ''<div'' @ v" by (auto simp: placeholder_pattern_def)
  with w(1) show ?thesis by simp
qed

text \<open>
  \<open>re.sub\<close> with the placeholder pattern: the text is scanned from the left; at a
  position where the pattern matches, the replacement for the matched text is emitted
  and the scan goes on after the match; elsewhere the character is copied.  (A match of
  this pattern is never empty.)
\<close>

function sub_placeholder :: "(string \<Rightarrow> string) \<Rightarrow> string \<Rightarrow> string" where
  "sub_placeholder repl s =
     (case rx_match placeholder_pattern s of
        Some t \<Rightarrow> repl (take (length s - length t) s) @ sub_placeholder repl t
      | None \<Rightarrow> (case s of [] \<Rightarrow> [] | c # cs \<Rightarrow> c # sub_placeholder repl cs))"
  by pat_completeness auto
termination
  by (relation "measure (\<lambda>(repl, s). length s)") (auto dest: placeholder_shorter)

declare sub_placeholder.simps [simp del]

text \<open>
  The replacement argument of \<open>re.sub\<close> is a template.  Without a backslash it stands
  for itself; with one it goes through the template compiler of \<open>re\<close>, a parameter
  here, which raises \<open>re.error\<close> (\<open>None\<close>) or gives the text to put for a match.
\<close>

definition repl_of :: "(string \<Rightarrow> (string \<Rightarrow> string) option) \<Rightarrow> string \<Rightarrow> (string \<Rightarrow> string) option" where
  "repl_of template content =
     (if CHR 0x5C \<in> set content then template content else Some (\<lambda>m. content))"

text \<open>\<open>sub in s\<close> for strings.\<close>

fun contains :: "string \<Rightarrow> string \<Rightarrow> bool" where
  "contains [] sub = startswith [] sub"
| "contains (c # cs) sub = (startswith (c # cs) sub \<or> contains cs sub)"

definition comment_marker :: string where
  "comment_marker = ''<!-- DAK_API_CONTENT -->''"

section \<open>HTMLProcessor.inject_content_at_comment_marker\<close>

text \<open>
  The text \<open>new_html\<close> computed from the text read: \<open>Inr None\<close> when neither marker
  is found (the method returns \<open>False\<close> there), an error when \<open>re.sub\<close> raises.
\<close>

definition new_html ::
  "(string \<Rightarrow> (string \<Rightarrow> string) option) \<Rightarrow> string \<Rightarrow> string \<Rightarrow> error + string option" where
  "new_html template content html_content =
     (if \<not> re_search placeholder_pattern html_content then
        (if contains html_content comment_marker
         then Inr (Some (str_replace html_content comment_marker content))
         else Inr None)
      else (case repl_of template content of
              None \<Rightarrow> Inl ReError
            | Some repl \<Rightarrow> Inr (Some (sub_placeholder repl html_content))))"

text \<open>
  The method: \<open>False\<close> without a write when the file is missing, cannot be read, has no
  marker, or \<open>re.sub\<close> raises; otherwise the new text is written, and the result tells
  whether the text grew by more than 100 characters.  A failing write is caught as
  well.
\<close>

definition inject_content_at_comment_marker ::
  "(string \<Rightarrow> (string \<Rightarrow> string) option) \<Rightarrow> string \<Rightarrow> string \<Rightarrow> filesystem \<Rightarrow> bool \<times> filesystem" where
  "inject_content_at_comment_marker template html_file_path content fs =
     (if \<not> os_path_exists fs html_file_path then (False, fs)
      else case read_text fs html_file_path of
        Inl e \<Rightarrow> (False, fs)
      | Inr html_content \<Rightarrow>
          (case new_html template content html_content of
             Inl e \<Rightarrow> (False, fs)
           | Inr None \<Rightarrow> (False, fs)
           | Inr (Some new) \<Rightarrow>
               (case write_text fs html_file_path new of
                  Inl e \<Rightarrow> (False, fs)
                | Inr fs' \<Rightarrow>
                    (let size_increase = int (length new) - int (length html_content)
                     in (size_increase > 100, fs')))))"

lemma contains_iff: "contains s l \<longleftrightarrow> (\<exists>a b. s = a @ l @ b)"
proof (induction s)
  case Nil
  show ?case by (auto simp: startswith_append)
next
  case (Cons c cs)
  show ?case
  proof
    assume "contains (c # cs) l"
    then consider "startswith (c # cs) l" | "contains cs l" by auto
    then show "\<exists>a b. c # cs = a @ l @ b"
    proof cases
      case 1
      then obtain b where "c # cs = l @ b" by (auto simp: startswith_append)
      then show ?thesis by (intro exI [of _ "[]"] exI [of _ b]) simp
    next
      case 2
      with Cons.IH obtain a b where "cs = a @ l @ b" by auto
      then show ?thesis by (intro exI [of _ "c # a"] exI [of _ b]) simp
    qed
  next
    assume "\<exists>a b. c # cs = a @ l @ b"
    then obtain a b where ab: "c # cs = a @ l @ b" by auto
    show "contains (c # cs) l"
    proof (cases a)
      case Nil
      with ab have "startswith (c # cs) l" by (auto simp: startswith_append)
      then show ?thesis by simp
    next
      case (Cons c' a')
      with ab have "cs = a' @ l @ b" by simp
      with Cons.IH show ?thesis by auto
    qed
  qed
qed

lemma new_html_no_marker:
  assumes "\<not> re_search placeholder_pattern html" and "\<not> contains html comment_marker"
  shows "new_html template content html = Inr None"
  using assms by (simp add: new_html_def)

text \<open>
  The placeholder element as the pattern reads it: \<open><div\<close>, white space, the id
  attribute, further text of the opening tag, \<open>>\<close>, a body, and a closing \<open></div>\<close>.
\<close>

definition element :: "string \<Rightarrow> string \<Rightarrow> string \<Rightarrow> string" where
  "element ws attrs body = ''<div'' @ ws @ placeholder_id @ attrs @ ''>'' @ body @ ''</div>''"

lemma accepts_placeholder_iff:
  "accepts placeholder_pattern w \<longleftrightarrow>
     (\<exists>ws attrs body. w = element ws attrs body \<and> ws \<noteq> [] \<and> (\<forall>c \<in> set ws. is_space c)
        \<and> CHR ''>'' \<notin> set attrs)"
proof
  assume "accepts placeholder_pattern w"
  then obtain ws attrs body where "w = ''<div'' @ ws @ placeholder_id @ attrs @ ''>'' @ body @ ''</div>''"
    "ws \<noteq> []" "\<forall>c \<in> set ws. is_space c" "\<forall>c \<in> set attrs. c \<noteq> CHR ''>''"
    unfolding placeholder_pattern_def accepts.simps by auto
  then show "\<exists>ws attrs body. w = element ws attrs body \<and> ws \<noteq> [] \<and> (\<forall>c \<in> set ws. is_space c)
        \<and> CHR ''>'' \<notin> set attrs"
    unfolding element_def by blast
next
  assume "\<exists>ws attrs body. w = element ws attrs body \<and> ws \<noteq> [] \<and> (\<forall>c \<in> set ws. is_space c)
        \<and> CHR ''>'' \<notin> set attrs"
  then obtain ws attrs body where w: "w = element ws attrs body" "ws \<noteq> []"
    "\<forall>c \<in> set ws. is_space c" "CHR ''>'' \<notin> set attrs" by blast
  have 1: "accepts [Lit ''</div>''] ''</div>''" by simp
  have 2: "accepts [Lazy (\<lambda>c. True), Lit ''</div>''] (body @ ''</div>'')"
    by (rule accepts_LazyI [OF _ 1]) simp
  have 3: "accepts [Lit ''>'', Lazy (\<lambda>c. True), Lit ''</div>''] (''>'' @ body @ ''</div>'')"
    using 2 by simp
  have 4: "accepts [Star (\<lambda>c. c \<noteq> CHR ''>''), Lit ''>'', Lazy (\<lambda>c. True), Lit ''</div>'']
      (attrs @ ''>'' @ body @ ''</div>'')"
    by (rule accepts_StarI [OF _ 3]) (use w(4) in auto)
  have 5: "accepts [Lit placeholder_id, Star (\<lambda>c. c \<noteq> CHR ''>''), Lit ''>'', Lazy (\<lambda>c. True),
      Lit ''</div>''] (placeholder_id @ attrs @ ''>'' @ body @ ''</div>'')"
    using 4 by simp
  have 6: "accepts [Plus is_space, Lit placeholder_id, Star (\<lambda>c. c \<noteq> CHR ''>''), Lit ''>'',
      Lazy (\<lambda>c. True), Lit ''</div>''] (ws @ placeholder_id @ attrs @ ''>'' @ body @ ''</div>'')"
    by (rule accepts_PlusI [OF w(2,3) 5])
  then show "accepts placeholder_pattern w"
    unfolding placeholder_pattern_def w(1) element_def by simp
qed

text \<open>What universal newlines keep: a match in the text read is a match in the file.\<close>

lemma nl_Cons: "c \<noteq> CHR 0x0D \<Longrightarrow> universal_newlines (c # x) = c # universal_newlines x"
  by (cases x) simp_all

lemma nl_CR: "x = [] \<or> hd x \<noteq> CHR 0x0A
    \<Longrightarrow> universal_newlines (CHR 0x0D # x) = CHR 0x0A # universal_newlines x"
  by (cases x) auto

lemma nl_split:
  "universal_newlines s = a' @ b'
     \<Longrightarrow> \<exists>a b. s = a @ b \<and> universal_newlines a = a' \<and> universal_newlines b = b'"
proof (induction s arbitrary: a' b' rule: universal_newlines.induct)
  case 1
  then show ?case by simp
next
  case (2 c)
  show ?case
  proof (cases a')
    case Nil
    with "2.prems" show ?thesis by (intro exI [of _ "[]"] exI [of _ "[c]"]) simp
  next
    case (Cons x a'')
    with "2.prems" have "universal_newlines [c] = a'" "b' = []" by simp_all
    then show ?thesis by (intro exI [of _ "[c]"] exI [of _ "[]"]) simp
  qed
next
  case (3 c d s)
  show ?case
  proof (cases a')
    case Nil
    with "3.prems" show ?thesis by (intro exI [of _ "[]"] exI [of _ "c # d # s"]) simp
  next
    case (Cons x a'')
    consider "c = CHR 0x0D" "d = CHR 0x0A" | "c = CHR 0x0D" "d \<noteq> CHR 0x0A" | "c \<noteq> CHR 0x0D"
      by blast
    then show ?thesis
    proof cases
      case 1
      with "3.prems" Cons have x: "x = CHR 0x0A" and r: "universal_newlines s = a'' @ b'"
        by simp_all
      from "3.IH"(1) [OF 1 r] obtain a b where ab: "s = a @ b" "universal_newlines a = a''"
        "universal_newlines b = b'" by blast
      show ?thesis
        using ab 1 x Cons by (intro exI [of _ "c # d # a"] exI [of _ b]) simp
    next
      case 2
      with "3.prems" Cons have x: "x = CHR 0x0A" and r: "universal_newlines (d # s) = a'' @ b'"
        by simp_all
      from "3.IH"(2) [OF 2 r] obtain a b where ab: "d # s = a @ b" "universal_newlines a = a''"
        "universal_newlines b = b'" by blast
      have "a = [] \<or> hd a \<noteq> CHR 0x0A"
        using ab(1) 2(2) by (cases a) auto
      from nl_CR [OF this] ab 2 x Cons show ?thesis
        by (intro exI [of _ "c # a"] exI [of _ b]) simp
    next
      case 3
      with "3.prems" Cons have x: "x = c" and r: "universal_newlines (d # s) = a'' @ b'"
        by simp_all
      from "3.IH"(3) [OF 3 r] obtain a b where ab: "d # s = a @ b" "universal_newlines a = a''"
        "universal_newlines b = b'" by blast
      from nl_Cons [OF 3, of a] ab x Cons show ?thesis
        by (intro exI [of _ "c # a"] exI [of _ b]) simp
    qed
  qed
qed

lemma nl_id: "CHR 0x0D \<notin> set x \<Longrightarrow> universal_newlines x = x"
  by (induction x rule: universal_newlines.induct) auto

lemma nl_CR_gives_LF: "CHR 0x0D \<in> set x \<Longrightarrow> CHR 0x0A \<in> set (universal_newlines x)"
  by (induction x rule: universal_newlines.induct) (auto split: if_splits)

lemma nl_literal:
  assumes "universal_newlines x = l" and "CHR 0x0A \<notin> set l"
  shows "x = l"
proof -
  from assms nl_CR_gives_LF [of x] have "CHR 0x0D \<notin> set x" by auto
  from nl_id [OF this] assms(1) show ?thesis by simp
qed

lemma nl_set: "c \<in> set x \<Longrightarrow> c \<noteq> CHR 0x0D \<Longrightarrow> c \<in> set (universal_newlines x)"
  by (induction x rule: universal_newlines.induct) (auto split: if_splits)

lemma nl_nonempty: "universal_newlines x \<noteq> [] \<Longrightarrow> x \<noteq> []"
  by auto

lemma accepts_nl:
  assumes "accepts placeholder_pattern (universal_newlines w)"
  shows "accepts placeholder_pattern w"
proof -
  from assms obtain ws attrs body where e: "universal_newlines w = element ws attrs body"
    and ws: "ws \<noteq> []" "\<forall>c \<in> set ws. is_space c" and at: "CHR ''>'' \<notin> set attrs"
    unfolding accepts_placeholder_iff by blast
  from e have "universal_newlines w
      = ''<div'' @ (ws @ (placeholder_id @ (attrs @ (''>'' @ (body @ ''</div>'')))))"
    by (simp add: element_def)
  from nl_split [OF this] obtain x1 r1 where 1: "w = x1 @ r1" "universal_newlines x1 = ''<div''"
    "universal_newlines r1 = ws @ (placeholder_id @ (attrs @ (''>'' @ (body @ ''</div>''))))"
    by blast
  from nl_split [OF 1(3)] obtain x2 r2 where 2: "r1 = x2 @ r2" "universal_newlines x2 = ws"
    "universal_newlines r2 = placeholder_id @ (attrs @ (''>'' @ (body @ ''</div>'')))"
    by blast
  from nl_split [OF 2(3)] obtain x3 r3 where 3: "r2 = x3 @ r3"
    "universal_newlines x3 = placeholder_id"
    "universal_newlines r3 = attrs @ (''>'' @ (body @ ''</div>''))"
    by blast
  from nl_split [OF 3(3)] obtain x4 r4 where 4: "r3 = x4 @ r4" "universal_newlines x4 = attrs"
    "universal_newlines r4 = ''>'' @ (body @ ''</div>'')"
    by blast
  from nl_split [OF 4(3)] obtain x5 r5 where 5: "r4 = x5 @ r5" "universal_newlines x5 = ''>''"
    "universal_newlines r5 = body @ ''</div>''"
    by blast
  from nl_split [OF 5(3)] obtain x6 x7 where 6: "r5 = x6 @ x7" "universal_newlines x6 = body"
    "universal_newlines x7 = ''</div>''"
    by blast
  have l: "x1 = ''<div''" "x3 = placeholder_id" "x5 = ''>''" "x7 = ''</div>''"
    using nl_literal [OF 1(2)] nl_literal [OF 3(2)] nl_literal [OF 5(2)] nl_literal [OF 6(3)]
    by (simp_all add: placeholder_id_def)
  have w: "w = element x2 x4 x6"
    using 1(1) 2(1) 3(1) 4(1) 5(1) 6(1) l by (simp add: element_def)
  have "x2 \<noteq> []" using 2(2) ws(1) by auto
  moreover have "\<forall>c \<in> set x2. is_space c"
  proof
    fix c assume c: "c \<in> set x2"
    show "is_space c"
    proof (cases "c = CHR 0x0D")
      case True
      then show ?thesis by (simp add: is_space_def)
    next
      case False
      from nl_set [OF c False] 2(2) ws(2) show ?thesis by simp
    qed
  qed
  moreover have "CHR ''>'' \<notin> set x4"
  proof
    assume "CHR ''>'' \<in> set x4"
    from nl_set [OF this] 4(2) at show False by simp
  qed
  ultimately show ?thesis
    unfolding accepts_placeholder_iff using w by blast
qed

lemma search_nl:
  assumes "re_search placeholder_pattern (universal_newlines html)"
  shows "\<exists>pre w post. html = pre @ w @ post \<and> accepts placeholder_pattern w"
proof -
  from assms obtain pre' w' post' where h: "universal_newlines html = pre' @ (w' @ post')"
    and a: "accepts placeholder_pattern w'"
    unfolding re_search_iff by auto
  from nl_split [OF h] obtain pre r where 1: "html = pre @ r" "universal_newlines r = w' @ post'"
    by blast
  from nl_split [OF 1(2)] obtain w post where 2: "r = w @ post" "universal_newlines w = w'"
    by blast
  from a 2(2) have "accepts placeholder_pattern w" using accepts_nl [of w] by simp
  with 1(1) 2(1) show ?thesis by blast
qed

lemma contains_nl:
  assumes "contains (universal_newlines html) comment_marker"
  shows "\<exists>pre post. html = pre @ comment_marker @ post"
proof -
  from assms obtain pre' post' where h: "universal_newlines html = pre' @ (comment_marker @ post')"
    unfolding contains_iff by auto
  from nl_split [OF h] obtain pre r where 1: "html = pre @ r"
    "universal_newlines r = comment_marker @ post'" by blast
  from nl_split [OF 1(2)] obtain m post where 2: "r = m @ post"
    "universal_newlines m = comment_marker" by blast
  have "m = comment_marker"
    by (rule nl_literal [OF 2(2)]) (simp add: comment_marker_def)
  with 1(1) 2(1) show ?thesis by blast
qed

text \<open>
  C2.  For a file that exists and whose text has no part that is a word of the
  placeholder pattern and no occurrence of the legacy comment marker,
  \<open>inject_content_at_comment_marker\<close> returns \<open>False\<close> and leaves the file system as it
  was.
\<close>

theorem inject_no_marker:
  assumes "nodes fs p = Some (Text html)"
    and "\<not> (\<exists>pre w post. html = pre @ w @ post \<and> accepts placeholder_pattern w)"
    and "\<not> (\<exists>pre post. html = pre @ comment_marker @ post)"
  shows "inject_content_at_comment_marker template p content fs = (False, fs)"
proof -
  from assms(2) have "\<not> re_search placeholder_pattern (universal_newlines html)"
    using search_nl [of html] by blast
  moreover from assms(3) have "\<not> contains (universal_newlines html) comment_marker"
    using contains_nl [of html] by blast
  ultimately have "new_html template content (universal_newlines html) = Inr None"
    by (rule new_html_no_marker)
  with assms(1) show ?thesis
    by (simp add: inject_content_at_comment_marker_def os_path_exists_def read_text_def)
qed

theorem inject_no_marker_witness:
  "inject_content_at_comment_marker (\<lambda>s. None) ''output/dak-api.html'' ''<p>hub</p>''
     \<lparr>nodes = (\<lambda>p. if p = ''output/dak-api.html'' then Some (Text ''<div id=x>no marker</div>'')
                    else None),
      locked = (\<lambda>p. False)\<rparr>
   = (False,
      \<lparr>nodes = (\<lambda>p. if p = ''output/dak-api.html'' then Some (Text ''<div id=x>no marker</div>'')
                    else None),
       locked = (\<lambda>p. False)\<rparr>)"
proof -
  let ?html = "''<div id=x>no marker</div>''"
  let ?fs = "\<lparr>nodes = (\<lambda>p. if p = ''output/dak-api.html'' then Some (Text ?html) else None),
      locked = (\<lambda>p. False)\<rparr>"
  have n: "nodes ?fs ''output/dak-api.html'' = Some (Text ?html)" by simp
  have "\<not> re_search placeholder_pattern ?html"
    by (simp add: placeholder_pattern_def placeholder_id_def startswith_def is_space_def)
  then have a: "\<not> (\<exists>pre w post. ?html = pre @ w @ post \<and> accepts placeholder_pattern w)"
    using re_search_iff [of placeholder_pattern ?html] by blast
  have "\<not> contains ?html comment_marker"
    by (simp add: comment_marker_def startswith_def)
  then have b: "\<not> (\<exists>pre post. ?html = pre @ comment_marker @ post)"
    using contains_iff [of ?html comment_marker] by blast
  from inject_no_marker [OF n a b] show ?thesis .
qed








lemma sub_no_match:
  "\<not> re_search placeholder_pattern s \<Longrightarrow> sub_placeholder repl s = s"
proof (induction s)
  case Nil
  then show ?case by (simp add: sub_placeholder.simps [of repl "[]"])
next
  case (Cons c cs)
  then show ?case by (simp add: sub_placeholder.simps [of repl "c # cs"])
qed


lemma sub_prefix:
  assumes "\<forall>k < length pre. rx_match placeholder_pattern (drop k (pre @ e @ rest)) = None"
    and "rx_match placeholder_pattern (e @ rest) = Some rest"
  shows "sub_placeholder repl (pre @ e @ rest) = pre @ repl e @ sub_placeholder repl rest"
  using assms(1)
proof (induction pre)
  case Nil
  from assms(2) show ?case
    by (simp add: sub_placeholder.simps [of repl "e @ rest"])
next
  case (Cons c pre)
  from Cons.prems [rule_format, of 0]
  have n: "rx_match placeholder_pattern (c # pre @ e @ rest) = None" by simp
  have "\<forall>k < length pre. rx_match placeholder_pattern (drop k (pre @ e @ rest)) = None"
  proof (intro allI impI)
    fix k assume "k < length pre"
    with Cons.prems [rule_format, of "Suc k"]
    show "rx_match placeholder_pattern (drop k (pre @ e @ rest)) = None" by simp
  qed
  from Cons.IH [OF this] n show ?case
    by (simp add: sub_placeholder.simps [of repl "c # pre @ e @ rest"])
qed

lemma sub_element:
  assumes "\<forall>k < length pre. rx_match placeholder_pattern (drop k (pre @ e @ post)) = None"
    and "rx_match placeholder_pattern (e @ post) = Some post"
    and "\<not> re_search placeholder_pattern post"
  shows "sub_placeholder repl (pre @ e @ post) = pre @ repl e @ post"
  by (simp add: sub_prefix [OF assms(1,2)] sub_no_match [OF assms(3)])

lemma inject_written:
  assumes "nodes fs p = Some (Text raw)"
    and "new_html template content (universal_newlines raw) = Inr (Some new)"
    and "\<not> locked fs p"
  shows "inject_content_at_comment_marker template p content fs
     = (100 < int (length new) - int (length (universal_newlines raw)),
        fs\<lparr>nodes := (nodes fs)(p \<mapsto> Text new)\<rparr>)"
  using assms
  by (simp add: inject_content_at_comment_marker_def os_path_exists_def read_text_def
      write_text_def)










text \<open>The number of bytes of the UTF-8 encoding of a text (code points below 256).\<close>

definition utf8_length :: "string \<Rightarrow> nat" where
  "utf8_length s = sum_list (map (\<lambda>c. if of_char c < (128 :: nat) then 1 else 2) s)"

lemma new_html_element:
  assumes "\<forall>k < length pre. rx_match placeholder_pattern (drop k (pre @ e @ post)) = None"
    and "rx_match placeholder_pattern (e @ post) = Some post"
    and "\<not> re_search placeholder_pattern post"
    and "CHR 0x5C \<notin> set content"
  shows "new_html template content (pre @ e @ post) = Inr (Some (pre @ content @ post))"
proof -
  from rx_match_sound [OF assms(2)] obtain w where "e @ post = w @ post" "accepts placeholder_pattern w"
    by auto
  then have "accepts placeholder_pattern e" by simp
  then have "re_search placeholder_pattern (pre @ e @ post)"
    unfolding re_search_iff by blast
  moreover have "repl_of template content = Some (\<lambda>m. content)"
    using assms(4) by (simp add: repl_of_def)
  ultimately show ?thesis
    by (simp add: new_html_def sub_element [OF assms(1,2,3)])
qed




text \<open>
  C4.  The claim as stated fails for lengths in bytes: the method compares numbers of
  characters.  A fragment of 101 two-byte characters put for a placeholder of 44
  characters makes the file 158 bytes longer, and the method returns \<open>False\<close>.
\<close>

theorem inject_bytes_counterexample:
  "fst (inject_content_at_comment_marker (\<lambda>s. None) ''output/dak-api.html''
      (replicate 101 (CHR 0xE9))
      \<lparr>nodes = (\<lambda>p. if p = ''output/dak-api.html''
                     then Some (Text (''<div '' @ placeholder_id @ ''></div>'')) else None),
       locked = (\<lambda>p. False)\<rparr>) = False
   \<and> file_text (snd (inject_content_at_comment_marker (\<lambda>s. None) ''output/dak-api.html''
      (replicate 101 (CHR 0xE9))
      \<lparr>nodes = (\<lambda>p. if p = ''output/dak-api.html''
                     then Some (Text (''<div '' @ placeholder_id @ ''></div>'')) else None),
       locked = (\<lambda>p. False)\<rparr>)) ''output/dak-api.html''
     = Inr (replicate 101 (CHR 0xE9))
   \<and> int (utf8_length (replicate 101 (CHR 0xE9)))
       - int (utf8_length (''<div '' @ placeholder_id @ ''></div>'')) = 158"
proof -
  let ?html = "''<div '' @ placeholder_id @ ''></div>''"
  let ?content = "replicate 101 (CHR 0xE9)"
  let ?fs = "\<lparr>nodes = (\<lambda>p. if p = ''output/dak-api.html'' then Some (Text ?html) else None),
       locked = (\<lambda>p. False)\<rparr>"
  have m: "rx_match placeholder_pattern (?html @ []) = Some []"
    by (simp add: placeholder_pattern_def placeholder_id_def startswith_def is_space_def)
  have n: "\<not> re_search placeholder_pattern []"
    by (simp add: placeholder_pattern_def startswith_def)
  have b: "CHR 0x5C \<notin> set ?content" by simp
  have p: "\<forall>k < length ''''. rx_match placeholder_pattern (drop k ('''' @ ?html @ [])) = None"
    by simp
  have l: "universal_newlines ?html = ?html"
    by (rule nl_id) (simp add: placeholder_id_def)
  from new_html_element [OF p m n b, of "\<lambda>s. None"]
  have "new_html (\<lambda>s. None) ?content ?html = Inr (Some ?content)" by simp
  then have h: "new_html (\<lambda>s. None) ?content (universal_newlines ?html) = Inr (Some ?content)"
    by (simp only: l)
  have f: "nodes ?fs ''output/dak-api.html'' = Some (Text ?html)"
    and u: "\<not> locked ?fs ''output/dak-api.html''" by simp_all
  have a: "fst (inject_content_at_comment_marker (\<lambda>s. None) ''output/dak-api.html'' ?content ?fs)
      = False"
    unfolding inject_written [OF f h u] by (simp add: l placeholder_id_def)
  have r: "file_text (snd (inject_content_at_comment_marker (\<lambda>s. None) ''output/dak-api.html''
      ?content ?fs)) ''output/dak-api.html'' = Inr ?content"
    unfolding inject_written [OF f h u] by (simp add: file_text_def)
  have c: "int (utf8_length ?content) - int (utf8_length ?html) = 158"
    by (simp add: utf8_length_def placeholder_id_def sum_list_replicate)
  from a r c show ?thesis by (intro conjI)
qed

text \<open>
  C4, amended.  Let \<open>html\<close> be the text read from the file, that is its text with every
  \<open>CR LF\<close> and every other \<open>CR\<close> read as \<open>LF\<close>.  When a marker is found in \<open>html\<close>, the
  substitution gives the text \<open>new\<close> and the file can be written, the method returns
  \<open>True\<close> exactly when \<open>new\<close> has more than 100 characters more than \<open>html\<close>; whatever
  it returns, the file then holds \<open>new\<close>, which is the result of \<open>re.sub\<close> on \<open>html\<close>
  when the placeholder pattern matches and of \<open>str.replace\<close> on the legacy marker
  otherwise.
\<close>

theorem inject_growth:
  assumes "nodes fs p = Some (Text raw)"
    and "new_html template content (universal_newlines raw) = Inr (Some new)"
    and "\<not> locked fs p"
  shows "fst (inject_content_at_comment_marker template p content fs)
           = (100 < int (length new) - int (length (universal_newlines raw)))
    \<and> file_text (snd (inject_content_at_comment_marker template p content fs)) p = Inr new
    \<and> (if re_search placeholder_pattern (universal_newlines raw)
        then \<exists>repl. repl_of template content = Some repl
               \<and> new = sub_placeholder repl (universal_newlines raw)
        else contains (universal_newlines raw) comment_marker
               \<and> new = str_replace (universal_newlines raw) comment_marker content)"
proof -
  have "if re_search placeholder_pattern (universal_newlines raw)
        then \<exists>repl. repl_of template content = Some repl
               \<and> new = sub_placeholder repl (universal_newlines raw)
        else contains (universal_newlines raw) comment_marker
               \<and> new = str_replace (universal_newlines raw) comment_marker content"
    using assms(2) by (auto simp: new_html_def split: if_splits option.splits)
  then show ?thesis
    unfolding inject_written [OF assms] by (simp add: file_text_def)
qed

theorem inject_growth_witness:
  "fst (inject_content_at_comment_marker (\<lambda>s. None) ''output/dak-api.html''
      (replicate 146 (CHR ''x''))
      \<lparr>nodes = (\<lambda>p. if p = ''output/dak-api.html''
                     then Some (Text (element '' '' [] [CHR 0x0D, CHR 0x0A] @ ''<p>''
                                       @ [CHR 0x0D, CHR 0x0A]))
                     else None),
       locked = (\<lambda>p. False)\<rparr>) = True
   \<and> file_text (snd (inject_content_at_comment_marker (\<lambda>s. None) ''output/dak-api.html''
      (replicate 146 (CHR ''x''))
      \<lparr>nodes = (\<lambda>p. if p = ''output/dak-api.html''
                     then Some (Text (element '' '' [] [CHR 0x0D, CHR 0x0A] @ ''<p>''
                                       @ [CHR 0x0D, CHR 0x0A]))
                     else None),
       locked = (\<lambda>p. False)\<rparr>)) ''output/dak-api.html''
     = Inr (replicate 146 (CHR ''x'') @ ''<p>'' @ [CHR 0x0A])"
proof -
  let ?raw = "element '' '' [] [CHR 0x0D, CHR 0x0A] @ ''<p>'' @ [CHR 0x0D, CHR 0x0A]"
  let ?e = "element '' '' [] [CHR 0x0A]"
  let ?post = "''<p>'' @ [CHR 0x0A]"
  let ?content = "replicate 146 (CHR ''x'')"
  let ?fs = "\<lparr>nodes = (\<lambda>p. if p = ''output/dak-api.html'' then Some (Text ?raw) else None),
       locked = (\<lambda>p. False)\<rparr>"
  have f: "nodes ?fs ''output/dak-api.html'' = Some (Text ?raw)"
    and u: "\<not> locked ?fs ''output/dak-api.html''" by simp_all
  have l: "universal_newlines ?raw = [] @ ?e @ ?post"
    by (simp add: element_def placeholder_id_def)
  have m: "rx_match placeholder_pattern (?e @ ?post) = Some ?post"
    by (simp add: placeholder_pattern_def element_def placeholder_id_def startswith_def
        is_space_def)
  have n: "\<not> re_search placeholder_pattern ?post"
    by (simp add: placeholder_pattern_def startswith_def)
  have b: "CHR 0x5C \<notin> set ?content" by simp
  have p: "\<forall>k < length ''''. rx_match placeholder_pattern (drop k ('''' @ ?e @ ?post)) = None"
    by simp
  from new_html_element [OF p m n b, of "\<lambda>s. None"]
  have h: "new_html (\<lambda>s. None) ?content (universal_newlines ?raw)
      = Inr (Some ([] @ ?content @ ?post))"
    by (simp only: l)
  have g: "(100 < int (length ([] @ ?content @ ?post)) - int (length (universal_newlines ?raw)))
      = True"
    unfolding l by (simp add: element_def placeholder_id_def)
  note t = inject_growth [OF f h u]
  from t [THEN conjunct1]
  have a: "fst (inject_content_at_comment_marker (\<lambda>s. None) ''output/dak-api.html''
      ?content ?fs) = True"
    by (simp only: g)
  from t [THEN conjunct2, THEN conjunct1]
  have r: "file_text (snd (inject_content_at_comment_marker (\<lambda>s. None) ''output/dak-api.html''
      ?content ?fs)) ''output/dak-api.html'' = Inr (replicate 146 (CHR ''x'') @ ''<p>'' @ [CHR 0x0A])"
    by simp
  from a r show ?thesis by (intro conjI)
qed

end
